theory Spec2Isabelle
  imports Main "HOL-Library.Word"
begin

unbundle bit_operations_syntax

section \<open>Platform and failure model\<close>

text \<open>
  The allocator is C and its behaviour depends on the width of \<open>unsigned long\<close>, the
  type \<open>ss_t\<close> of a Slot Set. The embedding keeps that width as the type parameter
  \<open>'w\<close>: \<open>32\<close> is an ILP32 target, \<open>64\<close> an LP64 target. \<open>unsigned\<close> and
  \<open>int\<close> are 32 bits wide on both, bytes have 8 bits, and \<open>size_t\<close> and object
  pointers are as wide as \<open>unsigned long\<close>. Addresses are natural numbers, \<open>0\<close> is the
  null pointer. Slot indices (\<open>idx\<close>, \<open>pos\<close>, \<open>slot\<close>) are natural numbers; every
  operation on them that can leave the range of its C type is written out below.

  The code path modelled is the one compiled without \<open>REVERSE_SS\<close> (lines 68 to 93 of
  the source), with assertions enabled.
\<close>

type_synonym addr = nat
type_synonym uint = "32 word"

datatype error =
    Assert_objsize        \<comment> \<open>\<open>assert(objsize)\<close> in \<open>pool_create_extra\<close>\<close>
  | Assert_buf            \<comment> \<open>\<open>assert(buf)\<close>: the backing allocation failed\<close>
  | Assert_pl             \<comment> \<open>\<open>assert(pl)\<close> in \<open>pool_alloc\<close> and \<open>pool_free\<close>\<close>
  | Assert_marked         \<comment> \<open>\<open>assert(ssg_test(pl->slots, slot))\<close> in \<open>pool_free\<close>\<close>
  | Assert_not_allocated  \<comment> \<open>\<open>assert(0 && "trying to free a non-allocated pointer")\<close>\<close>
  | UB_ctz_zero           \<comment> \<open>\<open>__builtin_ctz(0)\<close>, whose result is undefined\<close>
  | UB_shift              \<comment> \<open>shift count not below the width, or signed overflow of \<open><<\<close>\<close>
  | UB_index              \<comment> \<open>access to \<open>x.s[i]\<close> with \<open>i\<close> not below \<open>SSG_COUNT\<close>\<close>
  | UB_deref              \<comment> \<open>use of a pointer that is not a live pool node\<close>

section \<open>Power-of-two rounding\<close>

text \<open>\<open>npot\<close> (lines 11 to 21): all arithmetic is on \<open>unsigned\<close>, so it wraps at 32 bits.\<close>

definition npot :: "uint \<Rightarrow> uint" where
  "npot x0 =
     (let x = x0 - 1;
          x = drop_bit 1 x OR x;
          x = drop_bit 2 x OR x;
          x = drop_bit 4 x OR x;
          x = drop_bit 8 x OR x;
          x = drop_bit 16 x OR x
      in x + 1)"

text \<open>
  The compiler builtin \<open>__builtin_ctz\<close> takes an \<open>unsigned int\<close> and returns the number
  of trailing zero bits; for the argument 0 its result is undefined. \<open>ctz_from n v\<close>
  counts the trailing zeros of \<open>v\<close>, looking at \<open>n\<close> bit positions at most.
\<close>

fun ctz_from :: "nat \<Rightarrow> nat \<Rightarrow> nat" where
  "ctz_from 0 v = 0"
| "ctz_from (Suc n) v = (if odd v then 0 else Suc (ctz_from n (v div 2)))"

definition builtin_ctz :: "uint \<Rightarrow> error + nat" where
  "builtin_ctz x = (if x = 0 then Inl UB_ctz_zero else Inr (ctz_from 32 (unat x)))"

section \<open>Slot Set\<close>

definition SS_EMPTY :: "'w::len word" where
  "SS_EMPTY = - 1"

definition SS_FULL :: "'w::len word" where
  "SS_FULL = 0"

text \<open>
  \<open>ss_find\<close> (lines 69 to 72) passes its \<open>ss_t\<close> argument to \<open>__builtin_ctz\<close>, whose
  parameter is an \<open>unsigned int\<close>: the argument is converted, keeping its low 32 bits.
\<close>

definition ss_find :: "'w::len word \<Rightarrow> error + nat" where
  "ss_find x = builtin_ctz (ucast x)"

text \<open>
  \<open>ss_test\<close>, \<open>ss_mark\<close>, \<open>ss_unmark\<close> (lines 74 to 93): \<open>mask = 1; mask <<= idx\<close>
  is a shift of an \<open>ss_t\<close>, undefined when \<open>idx\<close> is not below the width of \<open>ss_t\<close>.
\<close>

definition ss_mask :: "nat \<Rightarrow> error + 'w::len word" where
  "ss_mask idx = (if idx < LENGTH('w) then Inr (push_bit idx 1) else Inl UB_shift)"

definition ss_test :: "'w::len word \<Rightarrow> nat \<Rightarrow> error + bool" where
  "ss_test x idx =
     (case ss_mask idx of Inl e \<Rightarrow> Inl e | Inr m \<Rightarrow> Inr (x AND m = 0))"

definition ss_mark :: "'w::len word \<Rightarrow> nat \<Rightarrow> error + 'w word" where
  "ss_mark x idx =
     (case ss_mask idx of Inl e \<Rightarrow> Inl e | Inr m \<Rightarrow> Inr (x AND NOT m))"

definition ss_unmark :: "'w::len word \<Rightarrow> nat \<Rightarrow> error + 'w word" where
  "ss_unmark x idx =
     (case ss_mask idx of Inl e \<Rightarrow> Inl e | Inr m \<Rightarrow> Inr (x OR m))"

section \<open>Slot Set Group\<close>

definition sizeof_ss_t :: "'w::len itself \<Rightarrow> nat" where
  "sizeof_ss_t T = LENGTH('w) div 8"

definition SS_SIZE :: "'w::len itself \<Rightarrow> nat" where
  "SS_SIZE T = sizeof_ss_t T * 8"

definition SSG_COUNT :: "'w::len itself \<Rightarrow> nat" where
  "SSG_COUNT T = 8 div sizeof_ss_t T"

definition SSG_SIZE :: "'w::len itself \<Rightarrow> nat" where
  "SSG_SIZE T = SSG_COUNT T * SS_SIZE T"

text \<open>
  An \<open>ssg_t\<close> is the array \<open>s[SSG_COUNT]\<close>, here the list of its elements in index
  order; a value of the C type has exactly \<open>SSG_COUNT\<close> elements. The two \<open>for\<close> loops
  over \<open>i = 0 .. SSG_COUNT - 1\<close> (lines 112 to 131) become recursion over that list.
\<close>

definition ssg_wf :: "'w::len word list \<Rightarrow> bool" where
  "ssg_wf x \<longleftrightarrow> length x = SSG_COUNT TYPE('w)"

fun ssg_is_full :: "'w::len word list \<Rightarrow> bool" where
  "ssg_is_full [] = True"
| "ssg_is_full (s # ss) = (if s \<noteq> SS_FULL then False else ssg_is_full ss)"

fun ssg_find_loop :: "nat \<Rightarrow> 'w::len word list \<Rightarrow> error + nat" where
  "ssg_find_loop pos [] = Inr 0"
| "ssg_find_loop pos (s # ss) =
     (if s \<noteq> SS_FULL
      then (case ss_find s of Inl e \<Rightarrow> Inl e | Inr j \<Rightarrow> Inr (pos + j))
      else ssg_find_loop (pos + SS_SIZE TYPE('w)) ss)"

definition ssg_find :: "'w::len word list \<Rightarrow> error + nat" where
  "ssg_find x = ssg_find_loop 0 x"

text \<open>\<open>_ssg_bucket\<close> and \<open>_ssg_subindex\<close> (lines 133 to 141).\<close>

definition ssg_bucket :: "'w::len itself \<Rightarrow> nat \<Rightarrow> nat" where
  "ssg_bucket T idx = idx div SSG_COUNT T"

definition ssg_subindex :: "'w::len itself \<Rightarrow> nat \<Rightarrow> nat" where
  "ssg_subindex T idx = idx mod SSG_COUNT T"

text \<open>
  \<open>ssg_test\<close>, \<open>ssg_mark\<close>, \<open>ssg_unmark\<close> (lines 143 to 158) index the array of the
  group they received by value; an index outside the array is undefined behaviour.
\<close>

definition ssg_test :: "'w::len word list \<Rightarrow> nat \<Rightarrow> error + bool" where
  "ssg_test x idx =
     (let b = ssg_bucket TYPE('w) idx
      in if b < SSG_COUNT TYPE('w)
         then ss_test (x ! b) (ssg_subindex TYPE('w) idx)
         else Inl UB_index)"

definition ssg_mark :: "'w::len word list \<Rightarrow> nat \<Rightarrow> error + 'w word list" where
  "ssg_mark x idx =
     (let b = ssg_bucket TYPE('w) idx
      in if b < SSG_COUNT TYPE('w)
         then (case ss_mark (x ! b) (ssg_subindex TYPE('w) idx) of
                 Inl e \<Rightarrow> Inl e
               | Inr v \<Rightarrow> Inr (x[b := v]))
         else Inl UB_index)"

definition ssg_unmark :: "'w::len word list \<Rightarrow> nat \<Rightarrow> error + 'w word list" where
  "ssg_unmark x idx =
     (let b = ssg_bucket TYPE('w) idx
      in if b < SSG_COUNT TYPE('w)
         then (case ss_unmark (x ! b) (ssg_subindex TYPE('w) idx) of
                 Inl e \<Rightarrow> Inl e
               | Inr v \<Rightarrow> Inr (x[b := v]))
         else Inl UB_index)"

text \<open>\<open>ssg_empty\<close> (lines 160 to 165): \<open>memset\<close> sets every bit of every element.\<close>

definition ssg_empty :: "'w::len itself \<Rightarrow> 'w word list" where
  "ssg_empty T = replicate (SSG_COUNT T) (- 1)"

text \<open>
  The reading of a group that the specification gives: slot \<open>idx\<close> of the 64 is bit
  \<open>idx mod SS_SIZE\<close> of the Slot Set number \<open>idx div SS_SIZE\<close>, and the slot is free
  when that bit is 1. \<open>ssg_free_count\<close> counts the free slots of a group.
\<close>

definition slot_free :: "'w::len word list \<Rightarrow> nat \<Rightarrow> bool" where
  "slot_free x idx \<longleftrightarrow>
     idx div SS_SIZE TYPE('w) < length x \<and>
     bit (x ! (idx div SS_SIZE TYPE('w))) (idx mod SS_SIZE TYPE('w))"

definition ssg_free_count :: "'w::len word list \<Rightarrow> nat" where
  "ssg_free_count x = length (filter (slot_free x) [0 ..< SSG_SIZE TYPE('w)])"

section \<open>Pool\<close>

text \<open>
  \<open>struct _pool\<close> (lines 168 to 176). A pool node lives at the address \<open>malloc\<close>
  returned for it; the heap maps the addresses of the live nodes to their headers. The
  object buffer of a node is never read or written by the allocator and is not part of
  the state.
\<close>

record 'ss pool =
  slots :: "'ss list"
  l2s :: uint
  successor :: addr

text \<open>
  \<open>malloc\<close> is outside the repository. The state carries the addresses its coming
  calls return, in order (\<open>0\<close>, or no entry left, is a failed allocation); which block a
  call returns does not depend on the requested size.
\<close>

record 'ss state =
  heap :: "addr \<rightharpoonup> 'ss pool"
  mallocs :: "addr list"

definition malloc :: "nat \<Rightarrow> 'ss state \<Rightarrow> addr \<times> 'ss state" where
  "malloc n s =
     (case mallocs s of
        [] \<Rightarrow> (0, s)
      | a # as \<Rightarrow> (a, s\<lparr>mallocs := as\<rparr>))"

text \<open>
  \<open>sizeof(pool)\<close>: the 8 bytes of \<open>slots\<close>, the 4 bytes of \<open>l2s\<close>, padding up to the
  alignment of the pointer, and the pointer \<open>successor\<close>: 16 bytes on ILP32, 24 on LP64.
\<close>

definition sizeof_pool :: "'w::len itself \<Rightarrow> nat" where
  "sizeof_pool T =
     (let p = sizeof_ss_t T;
          off = SSG_COUNT T * sizeof_ss_t T + 4
      in ((off + p - 1) div p) * p + p)"

definition size_t_max :: "'w::len itself \<Rightarrow> nat" where
  "size_t_max T = 2 ^ LENGTH('w)"

definition pool_source :: "'w::len itself \<Rightarrow> addr \<Rightarrow> addr" where
  "pool_source T p = p + sizeof_pool T"

text \<open>
  \<open>E1 << E2\<close> on an \<open>int\<close> with \<open>E1\<close> not negative (\<open>1 << pl->l2s\<close> and
  \<open>pos << pl->l2s\<close>): undefined unless \<open>E2 < 32\<close> and the result fits an \<open>int\<close>.
  \<open>SSG_SIZE << pl->l2s\<close> is a shift of a \<open>size_t\<close>: undefined unless the count is below
  its width, and wrapping. \<open>(unsigned)(p - pool_source(pl)) >> pl->l2s\<close> keeps the low
  32 bits of the difference and is undefined unless the count is below 32.
\<close>

definition int_shl :: "nat \<Rightarrow> uint \<Rightarrow> error + nat" where
  "int_shl v k =
     (if unat k < 32 \<and> v * 2 ^ unat k < 2 ^ 31 then Inr (v * 2 ^ unat k) else Inl UB_shift)"

definition size_t_shl :: "'w::len itself \<Rightarrow> nat \<Rightarrow> uint \<Rightarrow> error + nat" where
  "size_t_shl T v k =
     (if unat k < LENGTH('w) then Inr ((v * 2 ^ unat k) mod size_t_max T) else Inl UB_shift)"

definition uint_shr :: "nat \<Rightarrow> uint \<Rightarrow> error + nat" where
  "uint_shr v k =
     (if unat k < 32 then Inr ((v mod 2 ^ 32) div 2 ^ unat k) else Inl UB_shift)"

text \<open>
  \<open>pool_create_extra\<close> (lines 187 to 205). \<open>want_edata\<close> says whether the caller passed
  a non-null \<open>edata\<close>; the pointer stored there is the second component of the result.
\<close>

definition pool_create_extra ::
  "'w::len word state \<Rightarrow> uint \<Rightarrow> uint \<Rightarrow> bool \<Rightarrow>
     error + (addr \<times> addr option \<times> 'w word state)" where
  "pool_create_extra s objsize0 extradata want_edata =
     (if objsize0 = 0 then Inl Assert_objsize
      else
        let objsize = npot objsize0;
            body = (SSG_SIZE TYPE('w) * unat objsize) mod size_t_max TYPE('w);
            (buf, s1) =
              malloc ((sizeof_pool TYPE('w) + body + unat extradata) mod size_t_max TYPE('w)) s
        in if buf = 0 then Inl Assert_buf
           else
             (case builtin_ctz objsize of
                Inl e \<Rightarrow> Inl e
              | Inr k \<Rightarrow>
                  Inr (buf,
                       (if want_edata then Some (buf + sizeof_pool TYPE('w) + body) else None),
                       s1\<lparr>heap := (heap s1)(buf \<mapsto>
                            \<lparr>slots = ssg_empty TYPE('w), l2s = of_nat k, successor = 0\<rparr>)\<rparr>)))"

text \<open>\<open>pool_create\<close> (file \<open>pool.h\<close>).\<close>

definition pool_create :: "'w::len word state \<Rightarrow> uint \<Rightarrow> error + (addr \<times> 'w word state)" where
  "pool_create s objsize =
     (case pool_create_extra s objsize 0 False of
        Inl e \<Rightarrow> Inl e
      | Inr (pl, _, s') \<Rightarrow> Inr (pl, s'))"

text \<open>
  \<open>pool_alloc\<close> (lines 225 to 244). The recursion follows the successor links and
  need not end on a heap whose links form a cycle; \<open>None\<close> is the call that does not return.
\<close>

partial_function (option) pool_alloc ::
  "'w::len word state \<Rightarrow> addr \<Rightarrow> (error + addr \<times> 'w word state) option" where
  "pool_alloc s pl =
     (if pl = 0 then Some (Inl Assert_pl)
      else case heap s pl of
        None \<Rightarrow> Some (Inl UB_deref)
      | Some node \<Rightarrow>
          if ssg_is_full (slots node)
          then
            (if successor node = 0
             then
               (case int_shl 1 (l2s node) of
                  Inl e \<Rightarrow> Some (Inl e)
                | Inr sz \<Rightarrow>
                    (case pool_create s (of_nat sz) of
                       Inl e \<Rightarrow> Some (Inl e)
                     | Inr (a, s1) \<Rightarrow>
                         (case heap s1 pl of
                            None \<Rightarrow> Some (Inl UB_deref)
                          | Some node1 \<Rightarrow>
                              pool_alloc
                                (s1\<lparr>heap := (heap s1)(pl \<mapsto> node1\<lparr>successor := a\<rparr>)\<rparr>) a)))
             else pool_alloc s (successor node))
          else
            (case ssg_find (slots node) of
               Inl e \<Rightarrow> Some (Inl e)
             | Inr pos \<Rightarrow>
                 (case int_shl pos (l2s node) of
                    Inl e \<Rightarrow> Some (Inl e)
                  | Inr off \<Rightarrow>
                      (case ssg_mark (slots node) pos of
                         Inl e \<Rightarrow> Some (Inl e)
                       | Inr sl \<Rightarrow>
                           Some (Inr (pool_source TYPE('w) pl + off,
                                      s\<lparr>heap := (heap s)(pl \<mapsto> node\<lparr>slots := sl\<rparr>)\<rparr>))))))"

text \<open>
  \<open>pool_free\<close> (lines 247 to 268). \<open>in_pool\<close> is the range test of line 253; the
  right operand of its \<open>&&\<close>, with the shift, is evaluated only when the left one holds.
\<close>

definition in_pool :: "'w::len itself \<Rightarrow> addr \<Rightarrow> uint \<Rightarrow> addr \<Rightarrow> error + bool" where
  "in_pool T pl k p =
     (if pool_source T pl \<le> p
      then (case size_t_shl T (SSG_SIZE T) k of
              Inl e \<Rightarrow> Inl e
            | Inr len \<Rightarrow> Inr (p < pool_source T pl + len))
      else Inr False)"

partial_function (option) pool_free ::
  "'w::len word state \<Rightarrow> addr \<Rightarrow> addr \<Rightarrow> (error + 'w word state) option" where
  "pool_free s pl ptr =
     (if pl = 0 then Some (Inl Assert_pl)
      else if ptr = 0 then Some (Inr s)
      else case heap s pl of
        None \<Rightarrow> Some (Inl UB_deref)
      | Some node \<Rightarrow>
          (case in_pool TYPE('w) pl (l2s node) ptr of
             Inl e \<Rightarrow> Some (Inl e)
           | Inr inside \<Rightarrow>
               if inside
               then
                 (case uint_shr (ptr - pool_source TYPE('w) pl) (l2s node) of
                    Inl e \<Rightarrow> Some (Inl e)
                  | Inr slot \<Rightarrow>
                      (case ssg_test (slots node) slot of
                         Inl e \<Rightarrow> Some (Inl e)
                       | Inr marked \<Rightarrow>
                           if \<not> marked then Some (Inl Assert_marked)
                           else
                             (case ssg_unmark (slots node) slot of
                                Inl e \<Rightarrow> Some (Inl e)
                              | Inr sl \<Rightarrow>
                                  Some (Inr (s\<lparr>heap := (heap s)(pl \<mapsto> node\<lparr>slots := sl\<rparr>)\<rparr>)))))
               else
                 (if successor node \<noteq> 0 then pool_free s (successor node) ptr
                  else Some (Inl Assert_not_allocated))))"

section \<open>Chains and sample states\<close>

text \<open>
  \<open>chain s p ps\<close>: following the successor links from \<open>p\<close> visits exactly the live
  nodes \<open>ps\<close>, in this order, and then reaches the null pointer.
\<close>

fun chain :: "'ss state \<Rightarrow> addr \<Rightarrow> addr list \<Rightarrow> bool" where
  "chain s p [] \<longleftrightarrow> p = 0"
| "chain s p (q # qs) \<longleftrightarrow>
     p \<noteq> 0 \<and> p = q \<and>
     (case heap s p of None \<Rightarrow> False | Some node \<Rightarrow> chain s (successor node) qs)"

text \<open>\<open>chain_l2s s ps k\<close>: every node of \<open>ps\<close> is live and has \<open>l2s = k\<close>.\<close>

definition chain_l2s :: "'ss state \<Rightarrow> addr list \<Rightarrow> uint \<Rightarrow> bool" where
  "chain_l2s s ps k \<longleftrightarrow>
     list_all (\<lambda>p. case heap s p of None \<Rightarrow> False | Some node \<Rightarrow> l2s node = k) ps"

text \<open>
  A caller of the pool with head \<open>pl\<close>: a sequence of \<open>pool_alloc(pl)\<close> and
  \<open>pool_free(pl, p)\<close> calls, which stops at the first fatal or undefined call.
\<close>

datatype call = Alloc | Free addr

primrec run :: "'w::len word state \<Rightarrow> addr \<Rightarrow> call list \<Rightarrow> (error + 'w word state) option" where
  "run s pl [] = Some (Inr s)"
| "run s pl (c # cs) =
     (case c of
        Alloc \<Rightarrow>
          (case pool_alloc s pl of
             None \<Rightarrow> None
           | Some (Inl e) \<Rightarrow> Some (Inl e)
           | Some (Inr (loc, s')) \<Rightarrow> run s' pl cs)
      | Free p \<Rightarrow>
          (case pool_free s pl p of
             None \<Rightarrow> None
           | Some (Inl e) \<Rightarrow> Some (Inl e)
           | Some (Inr s') \<Rightarrow> run s' pl cs))"

text \<open>
  The state with one pool node at address 4096, for objects of 8 bytes, as
  \<open>pool_create(8)\<close> leaves it when \<open>malloc\<close> returned 4096, with the given slot group.
\<close>

definition ilp32_node :: "32 word list \<Rightarrow> 32 word state" where
  "ilp32_node sl = \<lparr>heap = [4096 \<mapsto> \<lparr>slots = sl, l2s = 3, successor = 0\<rparr>], mallocs = []\<rparr>"

definition lp64_node :: "64 word list \<Rightarrow> 64 word state" where
  "lp64_node sl = \<lparr>heap = [4096 \<mapsto> \<lparr>slots = sl, l2s = 3, successor = 0\<rparr>], mallocs = []\<rparr>"

text \<open>
  A 32-bit state whose only node, at 4096, is full and has no successor, while the next
  \<open>malloc\<close> returns 8192.
\<close>

definition ilp32_full :: "32 word state" where
  "ilp32_full = \<lparr>heap = [4096 \<mapsto> \<lparr>slots = [0, 0], l2s = 3, successor = 0\<rparr>], mallocs = [8192]\<rparr>"

section \<open>Constants of the two targets\<close>

lemmas platform_defs =
  sizeof_pool_def sizeof_ss_t_def SSG_COUNT_def SS_SIZE_def SSG_SIZE_def size_t_max_def
  pool_source_def ssg_bucket_def ssg_subindex_def

lemma SSG_SIZE_64: "LENGTH('w::len) = 32 \<or> LENGTH('w) = 64 \<Longrightarrow> SSG_SIZE TYPE('w) = 64"
  by (auto simp: platform_defs)

lemma sizeof_pool_ilp32: "sizeof_pool TYPE(32) = 16"
  by (simp add: platform_defs)

lemma sizeof_pool_lp64: "sizeof_pool TYPE(64) = 24"
  by (simp add: platform_defs)

section \<open>Slot Set: the polarity of \<open>ss_test\<close>\<close>

text \<open>
  Claim C2: for every Slot Set and every index in range, \<open>ss_test\<close> is true if and
  only if the slot is free, a free slot being a bit of value 1 and an occupied slot a bit
  of value 0. This is what the comment of the function says ("Test whether a given slot
  is free", line 44, taken over by "see comments above" at line 68), and the code
  returns the opposite, \<open>(x & mask) == 0\<close>: in the Slot Set 1 slot 0 is free and
  \<open>ss_test\<close> answers false; in the Slot Set 0 slot 0 is occupied and it answers true.
\<close>

theorem ss_test_inverted:
  "bit (1 :: 32 word) 0 \<and> ss_test (1 :: 32 word) 0 = Inr False \<and>
   \<not> bit (0 :: 32 word) 0 \<and> ss_test (0 :: 32 word) 0 = Inr True \<and>
   bit (1 :: 64 word) 0 \<and> ss_test (1 :: 64 word) 0 = Inr False \<and>
   \<not> bit (0 :: 64 word) 0 \<and> ss_test (0 :: 64 word) 0 = Inr True"
  by (simp add: ss_test_def ss_mask_def)

text \<open>
  On every Slot Set and at every index below its width, \<open>ss_test\<close> is true exactly when
  the bit of the slot is 0, that is, when the slot is occupied.
\<close>

lemma ss_test_occupied:
  "idx < LENGTH('w) \<Longrightarrow> ss_test (x :: 'w::len word) idx = Inr (\<not> bit x idx)"
  by (simp add: ss_test_def ss_mask_def and_exp_eq_0_iff_not_bit)

section \<open>Slot Set Group: which bit an index selects\<close>

text \<open>
  Claim C1: \<open>ssg_test\<close>, \<open>ssg_mark\<close> and \<open>ssg_unmark\<close> work on the Slot Set number
  \<open>idx div SS_SIZE\<close> at the local index \<open>idx mod SS_SIZE\<close>, so that bit \<open>idx\<close> of the
  64-bit group is read or written. The code divides by \<open>SSG_COUNT\<close>, the number of Slot
  Sets, instead. With a 32-bit \<open>unsigned long\<close>, marking index 2 of the all-free group
  selects Slot Set 1 and local index 0: it clears bit 32 of the group and leaves slot 2
  free. With a 64-bit \<open>unsigned long\<close> the group has one Slot Set, and for index 1 the
  three operations go to the element \<open>s[1]\<close>, which the array does not have.
\<close>

theorem ssg_routes_by_count:
  "ssg_bucket TYPE(32) 2 = 1 \<and> ssg_subindex TYPE(32) 2 = 0 \<and>
   2 div SS_SIZE TYPE(32) = 0 \<and> 2 mod SS_SIZE TYPE(32) = 2 \<and>
   ssg_mark [- 1, - 1 :: 32 word] 2 = Inr [- 1, 0xFFFFFFFE] \<and>
   slot_free [- 1, 0xFFFFFFFE :: 32 word] 2 \<and>
   \<not> slot_free [- 1, 0xFFFFFFFE :: 32 word] 32 \<and>
   ssg_test [- 1 :: 64 word] 1 = Inl UB_index \<and>
   ssg_mark [- 1 :: 64 word] 1 = Inl UB_index \<and>
   ssg_unmark [- 1 :: 64 word] 1 = Inl UB_index"
  by (simp add: ssg_test_def ssg_mark_def ssg_unmark_def ss_mark_def ss_mask_def slot_free_def
      platform_defs)

section \<open>A fresh pool node\<close>

lemma SSG_COUNT_ilp32: "SSG_COUNT TYPE(32) = Suc (Suc 0)"
  by (simp add: platform_defs)

lemma SSG_COUNT_lp64: "SSG_COUNT TYPE(64) = Suc 0"
  by (simp add: platform_defs)

lemma ssg_empty_ilp32: "ssg_empty TYPE(32) = [- 1, - 1]"
  by (simp add: ssg_empty_def SSG_COUNT_ilp32)

lemma ssg_empty_lp64: "ssg_empty TYPE(64) = [- 1]"
  by (simp add: ssg_empty_def SSG_COUNT_lp64)

lemma slot_free_empty:
  assumes "LENGTH('w::len) = 32 \<or> LENGTH('w) = 64" "idx < 64"
  shows "slot_free (ssg_empty TYPE('w)) idx"
  using assms
  by (auto simp: slot_free_def ssg_empty_def platform_defs less_mult_imp_div_less)

lemma ssg_free_count_empty:
  assumes "LENGTH('w::len) = 32 \<or> LENGTH('w) = 64"
  shows "ssg_free_count (ssg_empty TYPE('w)) = 64"
proof -
  have "filter (slot_free (ssg_empty TYPE('w))) [0 ..< 64] = [0 ..< 64]"
    by (rule filter_True) (use assms in \<open>simp add: slot_free_empty\<close>)
  then show ?thesis
    by (simp add: ssg_free_count_def SSG_SIZE_64 [OF assms])
qed

lemma pool_create_extra_node:
  assumes "pool_create_extra (s :: 'w::len word state) n extra want = Inr (pl, ed, s')"
  shows "\<exists>k. heap s' pl = Some \<lparr>slots = ssg_empty TYPE('w), l2s = k, successor = 0\<rparr>"
  using assms
  by (auto simp: pool_create_extra_def malloc_def Let_def
      split: if_splits list.splits sum.splits prod.splits)

lemma builtin_ctz_8: "builtin_ctz 8 = Inr 3"
  by code_simp

lemma create_8_ilp32:
  "pool_create_extra \<lparr>heap = Map.empty, mallocs = [4096]\<rparr> 8 0 False =
     Inr (4096, None,
          \<lparr>heap = [4096 \<mapsto> \<lparr>slots = [- 1, - 1 :: 32 word], l2s = 3, successor = 0\<rparr>],
             mallocs = []\<rparr>)"
  by (simp add: pool_create_extra_def malloc_def npot_def builtin_ctz_8 ssg_empty_ilp32)

text \<open>
  Claim C8: a freshly created pool node has exactly 64 free slots and a null successor.
  On both targets the group has 64 bits (\<open>SSG_SIZE\<close>), the node that
  \<open>pool_create_extra\<close> returns holds the all-ones group of \<open>SSG_COUNT\<close> Slot Sets, all
  64 slots of it are free, and its successor link is null.
\<close>

theorem fresh_pool_all_free:
  assumes "LENGTH('w::len) = 32 \<or> LENGTH('w) = 64"
    and "pool_create_extra (s :: 'w word state) n extra want = Inr (pl, ed, s')"
  shows "SSG_SIZE TYPE('w) = 64 \<and>
         (\<exists>node. heap s' pl = Some node \<and>
            slots node = ssg_empty TYPE('w) \<and>
            ssg_wf (slots node) \<and>
            ssg_free_count (slots node) = 64 \<and>
            successor node = 0)"
proof -
  obtain k where "heap s' pl = Some \<lparr>slots = ssg_empty TYPE('w), l2s = k, successor = 0\<rparr>"
    using pool_create_extra_node [OF assms(2)] by blast
  then show ?thesis
    using assms(1) SSG_SIZE_64 [OF assms(1)] ssg_free_count_empty [OF assms(1)]
    by (simp add: ssg_wf_def) (simp add: ssg_empty_def)
qed

theorem fresh_pool_all_free_witness:
  "(LENGTH(32) = 32 \<or> LENGTH(32) = 64) \<and>
   pool_create_extra \<lparr>heap = Map.empty, mallocs = [4096]\<rparr> 8 0 False =
     Inr (4096, None,
          \<lparr>heap = [4096 \<mapsto> \<lparr>slots = [- 1, - 1 :: 32 word], l2s = 3, successor = 0\<rparr>],
             mallocs = []\<rparr>) \<and>
   SSG_SIZE TYPE(32) = 64 \<and>
   ssg_free_count [- 1, - 1 :: 32 word] = 64"
proof -
  have "LENGTH(32) = 32 \<or> LENGTH(32) = 64"
    by simp
  from fresh_pool_all_free [OF this create_8_ilp32]
  have "SSG_SIZE TYPE(32) = 64 \<and> ssg_free_count (ssg_empty TYPE(32)) = 64"
    by auto
  then show ?thesis
    by (simp add: create_8_ilp32 ssg_empty_ilp32)
qed


section \<open>Power-of-two rounding in 32-bit arithmetic\<close>

text \<open>
  One smearing step: if bit \<open>i\<close> of \<open>a\<close> says whether \<open>y\<close> has a bit among the
  \<open>m\<close> positions from \<open>i\<close> on, then bit \<open>i\<close> of \<open>(a >> m) | a\<close> says so for \<open>2 * m\<close>
  positions.
\<close>

lemma smear_step:
  fixes a y :: "'a::len word"
  assumes "\<And>i. bit a i \<longleftrightarrow> (\<exists>d<m. bit y (i + d))"
  shows "bit (drop_bit m a OR a) i \<longleftrightarrow> (\<exists>d<2 * m. bit y (i + d))"
proof -
  have "bit (drop_bit m a OR a) i \<longleftrightarrow> bit a (m + i) \<or> bit a i"
    by (simp add: bit_or_iff bit_drop_bit_eq)
  also have "\<dots> \<longleftrightarrow> (\<exists>d<m. bit y (i + (m + d))) \<or> (\<exists>d<m. bit y (i + d))"
    by (simp add: assms add.assoc add.left_commute add.commute)
  also have "\<dots> \<longleftrightarrow> (\<exists>d<2 * m. bit y (i + d))"
  proof
    assume "(\<exists>d<m. bit y (i + (m + d))) \<or> (\<exists>d<m. bit y (i + d))"
    then show "\<exists>d<2 * m. bit y (i + d)"
    proof
      assume "\<exists>d<m. bit y (i + (m + d))"
      then obtain d where "d < m" "bit y (i + (m + d))" by blast
      then have "m + d < 2 * m \<and> bit y (i + (m + d))" by simp
      then show ?thesis by blast
    next
      assume "\<exists>d<m. bit y (i + d)"
      then obtain d where "d < m" "bit y (i + d)" by blast
      then have "d < 2 * m \<and> bit y (i + d)" by simp
      then show ?thesis by blast
    qed
  next
    assume "\<exists>d<2 * m. bit y (i + d)"
    then obtain d where d: "d < 2 * m" "bit y (i + d)" by blast
    show "(\<exists>d<m. bit y (i + (m + d))) \<or> (\<exists>d<m. bit y (i + d))"
    proof (cases "d < m")
      case True
      with d show ?thesis by blast
    next
      case False
      then have "d - m < m \<and> bit y (i + (m + (d - m)))" using d by simp
      then show ?thesis by blast
    qed
  qed
  finally show ?thesis .
qed

lemma npot_smear: "bit (npot x - 1) i \<longleftrightarrow> (\<exists>d<32. bit (x - 1) (i + d))"
proof -
  have s0: "\<And>i. bit (x - 1) i \<longleftrightarrow> (\<exists>d<1. bit (x - 1) (i + d))" by simp
  note s1 = smear_step [of "x - 1" 1 "x - 1", OF s0]
  note s2 = smear_step [OF s1]
  note s3 = smear_step [OF s2]
  note s4 = smear_step [OF s3]
  note s5 = smear_step [OF s4]
  show ?thesis using s5 [of i] by (simp add: npot_def Let_def)
qed

lemma bit_imp_le_unat:
  fixes y :: "'a::len word"
  assumes "bit y j"
  shows "2 ^ j \<le> unat y"
proof (rule ccontr)
  assume "\<not> 2 ^ j \<le> unat y"
  then have "unat y div 2 ^ j = 0" by simp
  then have "\<not> bit (unat y) j" by (simp add: bit_iff_odd)
  with assms show False by (simp add: bit_unsigned_iff)
qed

lemma top_bit_unat:
  fixes y :: "'a::len word"
  assumes "2 ^ k \<le> unat y" "unat y < 2 ^ Suc k"
  shows "bit y k"
proof -
  have "unat y div 2 ^ k = 1"
    using assms by (simp add: div_nat_eqI)
  then have "bit (unat y) k" by (simp add: bit_iff_odd)
  then show ?thesis by (simp add: bit_unsigned_iff)
qed

lemma npot_zero_pred: "x - 1 = 0 \<Longrightarrow> npot x = 1"
proof -
  assume "x - 1 = 0"
  then have "\<And>i. \<not> bit (npot x - 1) i" by (simp add: npot_smear)
  then have "npot x - 1 = 0" by (simp add: bit_eq_iff)
  then show ?thesis by simp
qed

lemma npot_exp:
  assumes "2 ^ k \<le> unat (x - 1)" "unat (x - 1) < 2 ^ Suc k"
  shows "npot x = 2 ^ Suc k"
proof -
  have k: "k < 32"
  proof (rule ccontr)
    assume "\<not> k < 32"
    then have "32 \<le> k" by simp
    then have "(2::nat) ^ 32 \<le> 2 ^ k" by (rule power_increasing) simp
    moreover have "unat (x - 1) < 2 ^ 32" using unsigned_less [of "x - 1"] by simp
    ultimately show False using assms(1) by simp
  qed
  have "npot x - 1 = mask (Suc k)"
  proof (rule bit_eqI)
    fix i
    show "bit (npot x - 1) i \<longleftrightarrow> bit (mask (Suc k) :: uint) i"
    proof
      assume "bit (npot x - 1) i"
      then obtain d where d: "d < 32" "bit (x - 1) (i + d)" by (auto simp: npot_smear)
      then have "2 ^ (i + d) \<le> unat (x - 1)" by (simp add: bit_imp_le_unat)
      with assms(2) have "(2::nat) ^ (i + d) < 2 ^ Suc k" by simp
      then have "i + d < Suc k" by (simp only: power_strict_increasing_iff [of "2::nat"] one_less_numeral_iff semiring_norm)
      with k show "bit (mask (Suc k) :: uint) i" by (simp add: bit_mask_iff)
    next
      assume "bit (mask (Suc k) :: uint) i"
      then have i: "i \<le> k" by (simp add: bit_mask_iff)
      have "bit (x - 1) (i + (k - i))" using i top_bit_unat [OF assms] by simp
      moreover have "k - i < 32" using k by simp
      ultimately show "bit (npot x - 1) i" unfolding npot_smear by blast
    qed
  qed
  then have "npot x - 1 + 1 = mask (Suc k) + 1" by (rule arg_cong)
  then have "npot x = mask (Suc k) + 1" by (simp only: diff_add_cancel)
  then show ?thesis by (simp only: inc_mask_eq_exp)
qed

lemma ctz_from_exp: "k < n \<Longrightarrow> ctz_from n (2 ^ k) = k"
proof (induction n arbitrary: k)
  case 0
  then show ?case by simp
next
  case (Suc n)
  show ?case
  proof (cases k)
    case 0
    then show ?thesis by simp
  next
    case (Suc k')
    with Suc.prems have "k' < n" by simp
    then show ?thesis using Suc.IH [of k'] Suc by simp
  qed
qed

lemma unat_exp_uint:
  assumes "k < 32"
  shows "unat (2 ^ k :: uint) = 2 ^ k"
proof -
  have "(2 ^ k :: uint) = of_nat (2 ^ k)" by simp
  then have "unat (2 ^ k :: uint) = 2 ^ k mod 2 ^ LENGTH(32)" by (simp only: unat_of_nat)
  moreover have "(2::nat) ^ k < 2 ^ LENGTH(32)" using assms by (simp only: power_strict_increasing_iff [of "2::nat"] one_less_numeral_iff semiring_norm) simp
  ultimately show ?thesis by (simp only: mod_less)
qed

lemma exp_uint_eq_0: "(2 ^ 32 :: uint) = 0"
  by simp

lemma builtin_ctz_exp: "k < 32 \<Longrightarrow> builtin_ctz (2 ^ k) = Inr k"
  by (simp add: builtin_ctz_def unat_exp_uint ctz_from_exp)

lemma npot_range:
  assumes "1 \<le> unat x" "unat x \<le> 2 ^ 31"
  shows "\<exists>k<32. npot x = 2 ^ k \<and> unat x \<le> 2 ^ k \<and> (\<forall>j. unat x \<le> 2 ^ j \<longrightarrow> k \<le> j)"
proof (cases "x - 1 = 0")
  case True
  then have "npot x = 2 ^ 0" "x = 1" by (simp_all add: npot_zero_pred)
  then show ?thesis by (intro exI [of _ 0]) simp
next
  case False
  have x: "x \<noteq> 0" using assms(1) by auto
  have y: "unat (x - 1) = unat x - 1" using x by (rule unat_minus_one)
  from False have "1 \<le> unat (x - 1)" by (simp add: unat_eq_0 Suc_le_eq unat_gt_0)
  from ex_power_ivl1 [OF _ this, of 2] obtain k where
    k: "2 ^ k \<le> unat (x - 1)" "unat (x - 1) < 2 ^ Suc k" by auto
  have n: "npot x = 2 ^ Suc k" using k by (rule npot_exp)
  have "(2::nat) ^ k < 2 ^ 31" using k(1) y assms by simp
  then have k31: "k < 31" by (simp only: power_strict_increasing_iff [of "2::nat"] one_less_numeral_iff semiring_norm)
  have le: "unat x \<le> 2 ^ Suc k" using k(2) y by simp
  have least: "Suc k \<le> j" if "unat x \<le> 2 ^ j" for j
  proof -
    have "(2::nat) ^ k < 2 ^ j" using that k(1) y assms(1) by linarith
    then have "k < j" by (simp only: power_strict_increasing_iff [of "2::nat"] one_less_numeral_iff semiring_norm)
    then show ?thesis by simp
  qed
  show ?thesis
    using n le least k31 by (intro exI [of _ "Suc k"]) simp
qed

lemma npot_overflow:
  assumes "2 ^ 31 < unat x"
  shows "npot x = 0"
proof -
  have x: "x \<noteq> 0" using assms by auto
  have y: "unat (x - 1) = unat x - 1" using x by (rule unat_minus_one)
  have "unat (x - 1) < 2 ^ 32" using unsigned_less [of "x - 1"] by simp
  then have "npot x = 2 ^ Suc 31"
    using assms y by (intro npot_exp) simp_all
  then show ?thesis by simp
qed

lemma unat_of_nat_uint: "k < 32 \<Longrightarrow> unat (of_nat k :: uint) = k"
  by (simp add: unat_of_nat)

lemma pool_create_extra_ok:
  assumes "1 \<le> unat n" "unat n \<le> 2 ^ 31" "mallocs s = a # rest" "a \<noteq> 0"
  shows "\<exists>k<32. npot n = 2 ^ k \<and> unat n \<le> 2 ^ k \<and> (\<forall>j. unat n \<le> 2 ^ j \<longrightarrow> k \<le> j) \<and>
           (\<exists>ed. pool_create_extra (s :: 'w::len word state) n extra want =
              Inr (a, ed, s\<lparr>mallocs := rest,
                    heap := (heap s)(a \<mapsto> \<lparr>slots = ssg_empty TYPE('w), l2s = of_nat k, successor = 0\<rparr>)\<rparr>))"
proof -
  obtain k where k: "k < 32" "npot n = 2 ^ k" "unat n \<le> 2 ^ k" "\<forall>j. unat n \<le> 2 ^ j \<longrightarrow> k \<le> j"
    using npot_range [OF assms(1,2)] by blast
  have n: "n \<noteq> 0" using assms(1) by auto
  have "\<exists>ed. pool_create_extra s n extra want =
              Inr (a, ed, s\<lparr>mallocs := rest,
                    heap := (heap s)(a \<mapsto> \<lparr>slots = ssg_empty TYPE('w), l2s = of_nat k, successor = 0\<rparr>)\<rparr>)"
    using n assms(3,4) k(1)
    by (simp add: pool_create_extra_def malloc_def Let_def k(2) builtin_ctz_exp)
  with k show ?thesis by blast
qed

lemma pool_create_extra_overflow:
  assumes "2 ^ 31 < unat n"
  shows "pool_create_extra s n extra want = Inl Assert_buf \<or>
         pool_create_extra s n extra want = Inl UB_ctz_zero"
  using assms
  by (auto simp: pool_create_extra_def malloc_def Let_def npot_overflow builtin_ctz_def
      split: list.splits prod.splits)

text \<open>
  Claim C10: \<open>npot\<close> works in 32-bit wrap-around arithmetic. For every requested size
  from 1 to \<open>2 ^ 31\<close> it returns the smallest power of two that is not below the size;
  for every size above \<open>2 ^ 31\<close> it returns 0, and \<open>pool_create_extra\<close> then returns
  no pool: either the allocation fails or \<open>__builtin_ctz\<close> is applied to 0. So the
  requested size has to be at most \<open>2 ^ 31\<close>.
\<close>

theorem npot_wraps_at_32_bits:
  "(1 \<le> unat x \<and> unat x \<le> 2 ^ 31 \<longrightarrow>
      (\<exists>k. unat (npot x) = 2 ^ k \<and> unat x \<le> 2 ^ k \<and> (\<forall>j. unat x \<le> 2 ^ j \<longrightarrow> k \<le> j))) \<and>
   (2 ^ 31 < unat x \<longrightarrow>
      npot x = 0 \<and>
      (pool_create_extra (s :: 'w::len word state) x extra want = Inl Assert_buf \<or>
       pool_create_extra s x extra want = Inl UB_ctz_zero))"
proof (intro conjI impI)
  assume "1 \<le> unat x \<and> unat x \<le> 2 ^ 31"
  then obtain k where "k < 32" "npot x = 2 ^ k" "unat x \<le> 2 ^ k" "\<forall>j. unat x \<le> 2 ^ j \<longrightarrow> k \<le> j"
    using npot_range [of x] by blast
  then show "\<exists>k. unat (npot x) = 2 ^ k \<and> unat x \<le> 2 ^ k \<and> (\<forall>j. unat x \<le> 2 ^ j \<longrightarrow> k \<le> j)"
    by (intro exI [of _ k]) (simp add: unat_exp_uint)
next
  assume "2 ^ 31 < unat x"
  then show "npot x = 0" by (rule npot_overflow)
next
  assume "2 ^ 31 < unat x"
  then show "pool_create_extra s x extra want = Inl Assert_buf \<or>
       pool_create_extra s x extra want = Inl UB_ctz_zero"
    by (rule pool_create_extra_overflow)
qed

theorem npot_wraps_at_32_bits_witness:
  "1 \<le> unat (24 :: uint) \<and> unat (24 :: uint) \<le> 2 ^ 31 \<and> npot 24 = 32 \<and>
   (\<exists>k. unat (npot 24) = 2 ^ k \<and> unat (24 :: uint) \<le> 2 ^ k \<and> (\<forall>j. unat (24 :: uint) \<le> 2 ^ j \<longrightarrow> k \<le> j)) \<and>
   2 ^ 31 < unat (0x80000001 :: uint) \<and> npot 0x80000001 = 0 \<and>
   pool_create_extra \<lparr>heap = Map.empty :: addr \<rightharpoonup> 32 word pool, mallocs = [4096]\<rparr> 0x80000001 0 False = Inl UB_ctz_zero"
proof -
  have a: "1 \<le> unat (24 :: uint) \<and> unat (24 :: uint) \<le> 2 ^ 31" by simp
  have b: "2 ^ 31 < unat (0x80000001 :: uint)" by simp
  have c: "pool_create_extra \<lparr>heap = Map.empty :: addr \<rightharpoonup> 32 word pool, mallocs = [4096]\<rparr> 0x80000001 0 False \<noteq> Inl Assert_buf"
    by (simp add: pool_create_extra_def malloc_def npot_def builtin_ctz_def)
  have d: "npot 24 = 32" by (simp add: npot_def)
  from npot_wraps_at_32_bits [of 24] a
  have "\<exists>k. unat (npot 24) = 2 ^ k \<and> unat (24 :: uint) \<le> 2 ^ k \<and> (\<forall>j. unat (24 :: uint) \<le> 2 ^ j \<longrightarrow> k \<le> j)"
    by blast
  moreover from npot_wraps_at_32_bits [of "0x80000001" "\<lparr>heap = Map.empty :: addr \<rightharpoonup> 32 word pool, mallocs = [4096]\<rparr>" 0 False] b c
  have "npot 0x80000001 = 0 \<and> pool_create_extra \<lparr>heap = Map.empty :: addr \<rightharpoonup> 32 word pool, mallocs = [4096]\<rparr> 0x80000001 0 False = Inl UB_ctz_zero"
    by blast
  ultimately show ?thesis using a b d by blast
qed

text \<open>
  Claim C5, as stated: for all positive \<open>n\<close>, \<open>create(n)\<close> fixes the stride to the
  smallest power of two not below \<open>n\<close>. It fails for the positive size
  \<open>2 ^ 31 + 1\<close>: the rounding wraps to 0 and no pool is returned.
\<close>

theorem create_stride_counterexample:
  "0 < unat (0x80000001 :: uint) \<and> npot 0x80000001 = 0 \<and>
   pool_create_extra \<lparr>heap = Map.empty :: addr \<rightharpoonup> 32 word pool, mallocs = [4096]\<rparr> 0x80000001 0 False = Inl UB_ctz_zero"
  by (simp add: pool_create_extra_def malloc_def npot_def builtin_ctz_def)

text \<open>
  Claim C5, amended: for all \<open>n\<close> from 1 to \<open>2 ^ 31\<close>, \<open>create(n)\<close>, when its backing
  allocation succeeds, returns a node whose stride \<open>2 ^ l2s\<close> is the value of the
  bit-smearing rounding function \<open>npot\<close> at \<open>n\<close> and is the smallest power of two not
  below \<open>n\<close>; \<open>create(24)\<close> and \<open>create(32)\<close> give stride 32, \<open>create(33)\<close> gives 64.
\<close>

theorem create_stride:
  assumes "1 \<le> unat n" "unat n \<le> 2 ^ 31" "mallocs s = a # rest" "a \<noteq> 0"
  shows "\<exists>ed s' node k.
           pool_create_extra (s :: 'w::len word state) n extra want = Inr (a, ed, s') \<and>
           heap s' a = Some node \<and> unat (l2s node) = k \<and>
           2 ^ k = unat (npot n) \<and> unat n \<le> 2 ^ k \<and> (\<forall>j. unat n \<le> 2 ^ j \<longrightarrow> k \<le> j)"
proof -
  obtain k ed where k: "k < 32" "npot n = 2 ^ k" "unat n \<le> 2 ^ k" "\<forall>j. unat n \<le> 2 ^ j \<longrightarrow> k \<le> j"
    and c: "pool_create_extra s n extra want =
              Inr (a, ed, s\<lparr>mallocs := rest,
                    heap := (heap s)(a \<mapsto> \<lparr>slots = ssg_empty TYPE('w), l2s = of_nat k, successor = 0\<rparr>)\<rparr>)"
    using pool_create_extra_ok [OF assms, of extra want] by blast
  let ?node = "\<lparr>slots = ssg_empty TYPE('w), l2s = of_nat k :: uint, successor = 0\<rparr>"
  let ?s' = "s\<lparr>mallocs := rest, heap := (heap s)(a \<mapsto> ?node)\<rparr>"
  have "pool_create_extra s n extra want = Inr (a, ed, ?s') \<and>
           heap ?s' a = Some ?node \<and> unat (l2s ?node) = k \<and>
           2 ^ k = unat (npot n) \<and> unat n \<le> 2 ^ k \<and> (\<forall>j. unat n \<le> 2 ^ j \<longrightarrow> k \<le> j)"
    using k c by (simp add: unat_of_nat_uint unat_exp_uint)
  then show ?thesis by blast
qed

theorem create_stride_witness:
  "(\<exists>ed s' node.
      pool_create_extra \<lparr>heap = Map.empty :: addr \<rightharpoonup> 32 word pool, mallocs = [4096]\<rparr> 24 0 False
        = Inr (4096, ed, s') \<and> heap s' 4096 = Some node \<and> 2 ^ unat (l2s node) = unat (npot 24)) \<and>
   npot 24 = 32 \<and> npot 32 = 32 \<and> npot 33 = 64 \<and>
   1 \<le> unat (24 :: uint) \<and> unat (24 :: uint) \<le> 2 ^ 31 \<and> (4096 :: nat) \<noteq> 0"
proof -
  have "1 \<le> unat (24 :: uint)" "unat (24 :: uint) \<le> 2 ^ 31"
    "mallocs \<lparr>heap = Map.empty :: addr \<rightharpoonup> 32 word pool, mallocs = [4096]\<rparr> = 4096 # []" "(4096 :: nat) \<noteq> 0"
    by simp_all
  from create_stride [OF this, of 0 False]
  have "\<exists>ed s' node.
      pool_create_extra \<lparr>heap = Map.empty :: addr \<rightharpoonup> 32 word pool, mallocs = [4096]\<rparr> 24 0 False
        = Inr (4096, ed, s') \<and> heap s' 4096 = Some node \<and> 2 ^ unat (l2s node) = unat (npot 24)"
    by blast
  moreover have "npot 24 = 32 \<and> npot 32 = 32 \<and> npot 33 = 64"
    by (simp add: npot_def)
  ultimately show ?thesis by simp
qed

section \<open>Runs of the allocator on the two targets\<close>

lemma ctz_from_numeral:
  "ctz_from (numeral n) v = (if odd v then 0 else Suc (ctz_from (pred_numeral n) (v div 2)))"
  by (simp add: numeral_eq_Suc)

lemmas eval_defs =
  SS_FULL_def ssg_find_def ss_find_def builtin_ctz_def ctz_from_numeral
  ssg_test_def ssg_mark_def ssg_unmark_def ss_test_def ss_mark_def ss_unmark_def ss_mask_def
  int_shl_def size_t_shl_def uint_shr_def in_pool_def

lemma ssg_empty_ilp32_hex: "ssg_empty TYPE(32) = [0xFFFFFFFF, 0xFFFFFFFF]"
  by (simp add: ssg_empty_ilp32)

lemma ssg_empty_lp64_hex: "ssg_empty TYPE(64) = [0xFFFFFFFFFFFFFFFF]"
  by (simp add: ssg_empty_lp64)

lemma create_8_ilp32_node:
  "pool_create \<lparr>heap = Map.empty, mallocs = [4096]\<rparr> 8 =
     Inr (4096, ilp32_node [0xFFFFFFFF, 0xFFFFFFFF])"
  by (simp add: pool_create_def pool_create_extra_def malloc_def npot_def builtin_ctz_8
      ssg_empty_ilp32_hex ilp32_node_def)

lemma create_8_lp64_node:
  "pool_create \<lparr>heap = Map.empty, mallocs = [4096]\<rparr> 8 =
     Inr (4096, lp64_node [0xFFFFFFFFFFFFFFFF])"
  by (simp add: pool_create_def pool_create_extra_def malloc_def npot_def builtin_ctz_8
      ssg_empty_lp64_hex lp64_node_def)

lemma alloc_ilp32_first:
  "pool_alloc (ilp32_node [0xFFFFFFFF, 0xFFFFFFFF]) 4096 =
     Some (Inr (4112, ilp32_node [0xFFFFFFFE, 0xFFFFFFFF]))"
  by (simp add: ilp32_node_def pool_alloc.simps eval_defs platform_defs)

lemma alloc_ilp32_second:
  "pool_alloc (ilp32_node [0xFFFFFFFE, 0xFFFFFFFF]) 4096 =
     Some (Inr (4120, ilp32_node [0xFFFFFFFC, 0xFFFFFFFF]))"
  by (simp add: ilp32_node_def pool_alloc.simps eval_defs platform_defs)

lemma alloc_ilp32_third:
  "pool_alloc (ilp32_node [0xFFFFFFFC, 0xFFFFFFFF]) 4096 =
     Some (Inr (4128, ilp32_node [0xFFFFFFFC, 0xFFFFFFFE]))"
  by (simp add: ilp32_node_def pool_alloc.simps eval_defs platform_defs)

lemma alloc_ilp32_fourth:
  "pool_alloc (ilp32_node [0xFFFFFFFC, 0xFFFFFFFE]) 4096 =
     Some (Inr (4128, ilp32_node [0xFFFFFFFC, 0xFFFFFFFE]))"
  by (simp add: ilp32_node_def pool_alloc.simps eval_defs platform_defs)

lemma alloc_lp64_first:
  "pool_alloc (lp64_node [0xFFFFFFFFFFFFFFFF]) 4096 =
     Some (Inr (4120, lp64_node [0xFFFFFFFFFFFFFFFE]))"
  by (simp add: lp64_node_def pool_alloc.simps eval_defs platform_defs)

lemma alloc_lp64_second:
  "pool_alloc (lp64_node [0xFFFFFFFFFFFFFFFE]) 4096 = Some (Inl UB_index)"
  by (simp add: lp64_node_def pool_alloc.simps eval_defs platform_defs)

lemma free_ilp32_third:
  "pool_free (ilp32_node [0xFFFFFFFC, 0xFFFFFFFE]) 4096 4128 =
     Some (Inr (ilp32_node [0xFFFFFFFC, 0xFFFFFFFF]))"
  by (simp add: ilp32_node_def pool_free.simps eval_defs platform_defs)

lemma free_ilp32_occupied:
  "pool_free (ilp32_node [0xFFFFFFFB, 0xFFFFFFFF]) 4096 4128 = Some (Inl Assert_marked)"
  by (simp add: ilp32_node_def pool_free.simps eval_defs platform_defs)

lemma free_lp64_occupied:
  "pool_free (lp64_node [0xFFFFFFFFFFFFFFFD]) 4096 4128 = Some (Inl UB_index)"
  by (simp add: lp64_node_def pool_free.simps eval_defs platform_defs)

text \<open>
  Claim C7: for every group that is not full, \<open>ssg_find\<close> returns the lowest free slot
  index of the whole 64-bit group. With a 64-bit \<open>unsigned long\<close> the group is one Slot
  Set, and \<open>ss_find\<close> hands it to \<open>__builtin_ctz\<close>, which takes an \<open>unsigned int\<close>:
  only the low 32 bits arrive. In the group whose slots 0 to 31 are occupied and whose
  slots 32 to 63 are free, the lowest free slot is 32, and the builtin is applied to 0.
\<close>

theorem ssg_find_lp64_truncates:
  "\<not> ssg_is_full [0xFFFFFFFF00000000 :: 64 word] \<and>
   slot_free [0xFFFFFFFF00000000 :: 64 word] 32 \<and>
   ss_find (0xFFFFFFFF00000000 :: 64 word) = Inl UB_ctz_zero \<and>
   ssg_find [0xFFFFFFFF00000000 :: 64 word] = Inl UB_ctz_zero"
  by (simp add: eval_defs slot_free_def platform_defs)

text \<open>
  Claim C6: allocation returns the lowest free slot of the first node that is not full;
  after the slots 0, 1 and 2 of a fresh pool were allocated and the address of slot 1
  was freed, the next allocation returns the address of slot 1. On the 32-bit target the
  third allocation of \<open>create(8)\<close> returns slot 2 (address 4128) and marks bit 32 of the
  group instead of bit 2, so the fourth allocation returns the same address 4128 while
  the third object is live. On the 64-bit target the second allocation goes to the
  element \<open>s[1]\<close> of the one-element group and the run is undefined from there.
\<close>

theorem alloc_hands_out_slot_twice:
  "pool_create \<lparr>heap = Map.empty, mallocs = [4096]\<rparr> 8 =
     Inr (4096, ilp32_node [0xFFFFFFFF, 0xFFFFFFFF]) \<and>
   pool_alloc (ilp32_node [0xFFFFFFFF, 0xFFFFFFFF]) 4096 =
     Some (Inr (4112, ilp32_node [0xFFFFFFFE, 0xFFFFFFFF])) \<and>
   pool_alloc (ilp32_node [0xFFFFFFFE, 0xFFFFFFFF]) 4096 =
     Some (Inr (4120, ilp32_node [0xFFFFFFFC, 0xFFFFFFFF])) \<and>
   pool_alloc (ilp32_node [0xFFFFFFFC, 0xFFFFFFFF]) 4096 =
     Some (Inr (4128, ilp32_node [0xFFFFFFFC, 0xFFFFFFFE])) \<and>
   pool_alloc (ilp32_node [0xFFFFFFFC, 0xFFFFFFFE]) 4096 =
     Some (Inr (4128, ilp32_node [0xFFFFFFFC, 0xFFFFFFFE])) \<and>
   pool_create \<lparr>heap = Map.empty, mallocs = [4096]\<rparr> 8 =
     Inr (4096, lp64_node [0xFFFFFFFFFFFFFFFF]) \<and>
   pool_alloc (lp64_node [0xFFFFFFFFFFFFFFFF]) 4096 =
     Some (Inr (4120, lp64_node [0xFFFFFFFFFFFFFFFE])) \<and>
   pool_alloc (lp64_node [0xFFFFFFFFFFFFFFFE]) 4096 = Some (Inl UB_index)"
  by (simp only: create_8_ilp32_node create_8_lp64_node alloc_ilp32_first alloc_ilp32_second
      alloc_ilp32_third alloc_ilp32_fourth alloc_lp64_first alloc_lp64_second simp_thms)

text \<open>
  Claim C3: \<open>pool_free\<close> ignores a null pointer; for a pointer inside the buffer of the
  node it computes the slot index, asserts that this slot is occupied and unmarks it;
  otherwise it goes to the successor, and it is fatal when no node owns the pointer.
  The slot that is tested and unmarked is not the computed one. On the 32-bit target,
  in the state the three allocations above leave, freeing address 4128 (index 2) tests
  and sets bit 32 of the group, while the bit of slot 2 says free before and after; and in
  a node whose slot 2 is occupied, the same call fails the assertion. On the 64-bit
  target freeing the address of the occupied slot 1 reads the element \<open>s[1]\<close>, which the
  group does not have.
\<close>

theorem free_tests_other_slot:
  "slot_free [0xFFFFFFFC, 0xFFFFFFFE :: 32 word] 2 \<and>
   \<not> slot_free [0xFFFFFFFC, 0xFFFFFFFE :: 32 word] 32 \<and>
   pool_free (ilp32_node [0xFFFFFFFC, 0xFFFFFFFE]) 4096 4128 =
     Some (Inr (ilp32_node [0xFFFFFFFC, 0xFFFFFFFF])) \<and>
   \<not> slot_free [0xFFFFFFFB, 0xFFFFFFFF :: 32 word] 2 \<and>
   pool_free (ilp32_node [0xFFFFFFFB, 0xFFFFFFFF]) 4096 4128 = Some (Inl Assert_marked) \<and>
   \<not> slot_free [0xFFFFFFFFFFFFFFFD :: 64 word] 1 \<and>
   pool_free (lp64_node [0xFFFFFFFFFFFFFFFD]) 4096 4128 = Some (Inl UB_index)"
  by (simp add: free_ilp32_third free_ilp32_occupied free_lp64_occupied slot_free_def
      platform_defs)

section \<open>Where an allocated object lies\<close>

lemma int_shl_Inr: "int_shl v k = Inr off \<Longrightarrow> off = v * 2 ^ unat k"
  by (auto simp: int_shl_def split: if_splits)

lemma create_32_lp64:
  "pool_create \<lparr>heap = Map.empty, mallocs = [4096]\<rparr> 32 =
     Inr (4096, \<lparr>heap = [4096 \<mapsto> \<lparr>slots = [0xFFFFFFFFFFFFFFFF :: 64 word], l2s = 5, successor = 0\<rparr>],
                  mallocs = []\<rparr>)"
  by (simp add: pool_create_def pool_create_extra_def malloc_def npot_def eval_defs
      ssg_empty_lp64_hex)

lemma alloc_32_lp64:
  "pool_alloc \<lparr>heap = [4096 \<mapsto> \<lparr>slots = [0xFFFFFFFFFFFFFFFF :: 64 word], l2s = 5, successor = 0\<rparr>],
                mallocs = []\<rparr> 4096 =
     Some (Inr (4120,
       \<lparr>heap = [4096 \<mapsto> \<lparr>slots = [0xFFFFFFFFFFFFFFFE :: 64 word], l2s = 5, successor = 0\<rparr>],
          mallocs = []\<rparr>))"
  by (simp add: pool_alloc.simps eval_defs platform_defs)

lemma create_32_ilp32:
  "pool_create \<lparr>heap = Map.empty, mallocs = [4096]\<rparr> 32 =
     Inr (4096, \<lparr>heap = [4096 \<mapsto> \<lparr>slots = [0xFFFFFFFF, 0xFFFFFFFF :: 32 word], l2s = 5, successor = 0\<rparr>],
                  mallocs = []\<rparr>)"
  by (simp add: pool_create_def pool_create_extra_def malloc_def npot_def eval_defs
      ssg_empty_ilp32_hex)

lemma alloc_32_ilp32:
  "pool_alloc \<lparr>heap = [4096 \<mapsto> \<lparr>slots = [0xFFFFFFFF, 0xFFFFFFFF :: 32 word], l2s = 5, successor = 0\<rparr>],
                mallocs = []\<rparr> 4096 =
     Some (Inr (4112,
       \<lparr>heap = [4096 \<mapsto> \<lparr>slots = [0xFFFFFFFE, 0xFFFFFFFF :: 32 word], l2s = 5, successor = 0\<rparr>],
          mallocs = []\<rparr>))"
  by (simp add: pool_alloc.simps eval_defs platform_defs)

text \<open>
  Claim C9: every address that \<open>pool_alloc\<close> returns is aligned to the rounded object
  size. The comment of \<open>npot\<close> (lines 8 to 10) gives this as the reason for rounding:
  "we require objects to be powers of two in size, for alignment". The code does not
  deliver it: the buffer starts \<open>sizeof(pool)\<close> bytes after the address \<open>malloc\<close>
  returned, and nothing aligns that base. For objects of 32 bytes and the block at
  address 4096, the first object is at 4120 on the 64-bit target and at 4112 on the
  32-bit target; neither is a multiple of 32.
\<close>

theorem alloc_address_not_aligned:
  "pool_create \<lparr>heap = Map.empty, mallocs = [4096]\<rparr> 32 =
     Inr (4096, \<lparr>heap = [4096 \<mapsto> \<lparr>slots = [0xFFFFFFFFFFFFFFFF :: 64 word], l2s = 5, successor = 0\<rparr>],
                  mallocs = []\<rparr>) \<and>
   pool_alloc \<lparr>heap = [4096 \<mapsto> \<lparr>slots = [0xFFFFFFFFFFFFFFFF :: 64 word], l2s = 5, successor = 0\<rparr>],
                mallocs = []\<rparr> 4096 =
     Some (Inr (4120,
       \<lparr>heap = [4096 \<mapsto> \<lparr>slots = [0xFFFFFFFFFFFFFFFE :: 64 word], l2s = 5, successor = 0\<rparr>],
          mallocs = []\<rparr>)) \<and>
   (4120 :: nat) mod 2 ^ 5 = 24 \<and>
   pool_create \<lparr>heap = Map.empty, mallocs = [4096]\<rparr> 32 =
     Inr (4096, \<lparr>heap = [4096 \<mapsto> \<lparr>slots = [0xFFFFFFFF, 0xFFFFFFFF :: 32 word], l2s = 5, successor = 0\<rparr>],
                  mallocs = []\<rparr>) \<and>
   pool_alloc \<lparr>heap = [4096 \<mapsto> \<lparr>slots = [0xFFFFFFFF, 0xFFFFFFFF :: 32 word], l2s = 5, successor = 0\<rparr>],
                mallocs = []\<rparr> 4096 =
     Some (Inr (4112,
       \<lparr>heap = [4096 \<mapsto> \<lparr>slots = [0xFFFFFFFE, 0xFFFFFFFF :: 32 word], l2s = 5, successor = 0\<rparr>],
          mallocs = []\<rparr>)) \<and>
   (4112 :: nat) mod 2 ^ 5 = 16"
  by (simp add: create_32_lp64 alloc_32_lp64 create_32_ilp32 alloc_32_ilp32)

section \<open>Chains of pool nodes\<close>

lemma chain_cong:
  "(\<And>q. q \<in> set ps \<Longrightarrow> map_option successor (heap s' q) = map_option successor (heap s q))
   \<Longrightarrow> chain s' p ps = chain s p ps"
proof (induction ps arbitrary: p)
  case Nil
  then show ?case by simp
next
  case (Cons q qs)
  have m: "map_option successor (heap s' q) = map_option successor (heap s q)"
    using Cons.prems by simp
  have IH: "\<And>p. chain s' p qs = chain s p qs"
    using Cons.IH Cons.prems by simp
  show ?case
  proof (cases "heap s q")
    case None
    with m have "heap s' q = None" by simp
    with None show ?thesis by (cases "p = q") simp_all
  next
    case (Some n)
    with m obtain n' where "heap s' q = Some n'" "successor n' = successor n" by auto
    with Some show ?thesis by (cases "p = q") (simp_all add: IH)
  qed
qed

lemma chain_l2s_cong:
  assumes "\<And>q. q \<in> set ps \<Longrightarrow> map_option l2s (heap s' q) = map_option l2s (heap s q)"
  shows "chain_l2s s' ps k = chain_l2s s ps k"
proof -
  have "(case heap s' q of None \<Rightarrow> False | Some node \<Rightarrow> l2s node = k) =
        (case heap s q of None \<Rightarrow> False | Some node \<Rightarrow> l2s node = k)"
    if "q \<in> set ps" for q
    using assms [OF that] by (cases "heap s q"; cases "heap s' q") auto
  then show ?thesis
    unfolding chain_l2s_def list_all_iff by blast
qed

lemma chain_unique: "chain s p ps \<Longrightarrow> chain s p qs \<Longrightarrow> ps = qs"
proof (induction ps arbitrary: p qs)
  case Nil
  then show ?case by (cases qs) auto
next
  case (Cons a ps)
  then show ?case by (cases qs) (auto split: option.splits)
qed

lemma chain_from_member:
  "chain s p ps \<Longrightarrow> q \<in> set ps \<Longrightarrow> \<exists>us vs. ps = us @ q # vs \<and> chain s q (q # vs)"
proof (induction ps arbitrary: p)
  case Nil
  then show ?case by simp
next
  case (Cons a ps)
  show ?case
  proof (cases "q = a")
    case True
    with Cons.prems have "a # ps = [] @ q # ps \<and> chain s q (q # ps)" by auto
    then show ?thesis by blast
  next
    case False
    with Cons.prems obtain node where "heap s p = Some node" "chain s (successor node) ps" "q \<in> set ps"
      by (auto split: option.splits)
    from Cons.IH [OF this(2,3)] obtain us vs where "ps = us @ q # vs" "chain s q (q # vs)" by blast
    then have "a # ps = (a # us) @ q # vs \<and> chain s q (q # vs)" by simp
    then show ?thesis by blast
  qed
qed

lemma chain_head_notin:
  assumes "chain s p (p # qs)"
  shows "p \<notin> set qs"
proof
  assume "p \<in> set qs"
  then have "p \<in> set (p # qs)" by simp
  from assms obtain node where n: "heap s p = Some node" "chain s (successor node) qs"
    by (auto split: option.splits)
  from chain_from_member [OF n(2) \<open>p \<in> set qs\<close>] obtain us vs where
    u: "qs = us @ p # vs" "chain s p (p # vs)" by blast
  from chain_unique [OF assms u(2)] have "qs = vs" by simp
  with u(1) show False by simp
qed

lemma npot_exp_id:
  assumes "j < 32"
  shows "npot (2 ^ j) = 2 ^ j"
proof (cases "j = 31")
  case True
  then show ?thesis by (simp add: npot_def)
next
  case False
  with assms have j: "j < 31" by simp
  have u: "unat (2 ^ j :: uint) = 2 ^ j" using assms by (rule unat_exp_uint)
  have "(2::nat) ^ j \<le> 2 ^ 31" using j by (intro power_increasing) simp_all
  then have "1 \<le> unat (2 ^ j :: uint)" "unat (2 ^ j :: uint) \<le> 2 ^ 31"
    by (simp_all add: u)
  from npot_range [OF this] obtain k where
    k: "k < 32" "npot (2 ^ j) = 2 ^ k" "unat (2 ^ j :: uint) \<le> 2 ^ k"
       "\<forall>i. unat (2 ^ j :: uint) \<le> 2 ^ i \<longrightarrow> k \<le> i" by blast
  from k(4) u have "k \<le> j" by simp
  moreover from k(3) u have "(2::nat) ^ j \<le> 2 ^ k" by simp
  then have "j \<le> k" by (simp only: power_increasing_iff [of "2::nat"] one_less_numeral_iff semiring_norm)
  ultimately show ?thesis using k(2) by simp
qed

lemma pool_create_exp:
  assumes "j < 32" "mallocs s = a # rest" "a \<noteq> 0"
  shows "pool_create (s :: 'w::len word state) (2 ^ j) =
     Inr (a, s\<lparr>mallocs := rest,
              heap := (heap s)(a \<mapsto> \<lparr>slots = ssg_empty TYPE('w), l2s = of_nat j, successor = 0\<rparr>)\<rparr>)"
proof -
  have "unat (2 ^ j :: uint) = 2 ^ j" using assms(1) by (rule unat_exp_uint)
  then have "(2 ^ j :: uint) \<noteq> 0" by (metis power_not_zero unat_0 zero_neq_numeral)
  then show ?thesis
    using assms
    by (simp add: pool_create_def pool_create_extra_def malloc_def Let_def npot_exp_id
        builtin_ctz_exp)
qed

lemma SSG_COUNT_Suc:
  assumes "LENGTH('w::len) = 32 \<or> LENGTH('w) = 64"
  shows "\<exists>n. SSG_COUNT TYPE('w) = Suc n"
  using assms by (auto simp: platform_defs numeral_2_eq_2)

lemma ss_find_all_free: "ss_find (- 1 :: 'w::len word) = Inr 0"
proof -
  let ?x = "ucast (- 1 :: 'w word) :: uint"
  have b: "bit ?x 0"
    by (simp only: bit_ucast_iff bit_minus_1_iff) simp
  then have "bit (unat ?x) 0"
    by (simp only: bit_unsigned_iff) simp
  then have o: "odd (unat ?x)"
    unfolding bit_0 .
  then have "unat ?x \<noteq> 0" by (metis even_zero)
  then have "?x \<noteq> 0" by (metis unat_0)
  then have "builtin_ctz ?x = Inr (ctz_from 32 (unat ?x))"
    by (simp only: builtin_ctz_def if_False simp_thms)
  moreover have "ctz_from 32 (unat ?x) = 0"
    using o by (simp only: ctz_from_numeral if_True simp_thms)
  ultimately show ?thesis
    by (simp only: ss_find_def)
qed

lemma alloc_from_empty_group:
  assumes "LENGTH('w::len) = 32 \<or> LENGTH('w) = 64"
  shows "\<not> ssg_is_full (ssg_empty TYPE('w)) \<and> ssg_find (ssg_empty TYPE('w)) = Inr 0 \<and>
         (\<exists>sl. ssg_mark (ssg_empty TYPE('w)) 0 = Inr sl)"
proof -
  obtain n where n: "SSG_COUNT TYPE('w) = Suc n"
    using SSG_COUNT_Suc [OF assms] by blast
  then have e: "ssg_empty TYPE('w) = (- 1) # replicate n (- 1)"
    by (simp add: ssg_empty_def)
  show ?thesis
    by (simp add: e SS_FULL_def ssg_find_def ss_find_all_free ssg_mark_def ss_mark_def
        ss_mask_def ssg_bucket_def ssg_subindex_def n)
qed

lemma int_shl_one:
  assumes "unat k < 31"
  shows "int_shl 1 k = Inr (2 ^ unat k)"
proof -
  have "(2::nat) ^ unat k < 2 ^ 31"
    using assms by (intro power_strict_increasing) simp_all
  then show ?thesis using assms by (simp add: int_shl_def)
qed

lemma pool_alloc_new_successor:
  fixes s :: "'w::len word state"
  assumes W: "LENGTH('w) = 32 \<or> LENGTH('w) = 64"
    and pl: "pl \<noteq> 0" "heap s pl = Some node"
    and full: "ssg_is_full (slots node)" "successor node = 0"
    and k: "unat (l2s node) < 31"
    and m: "mallocs s = a # rest" "a \<noteq> 0" "a \<noteq> pl"
  shows "\<exists>sl. pool_alloc s pl =
           Some (Inr (pool_source TYPE('w) a,
             s\<lparr>mallocs := rest,
                heap := (heap s)(a \<mapsto> \<lparr>slots = sl, l2s = l2s node, successor = 0\<rparr>,
                                 pl \<mapsto> node\<lparr>successor := a\<rparr>)\<rparr>))"
proof -
  obtain sl where e: "\<not> ssg_is_full (ssg_empty TYPE('w))" "ssg_find (ssg_empty TYPE('w)) = Inr 0"
    "ssg_mark (ssg_empty TYPE('w)) 0 = Inr sl"
    using alloc_from_empty_group [OF W] by blast
  let ?new = "\<lparr>slots = ssg_empty TYPE('w), l2s = l2s node, successor = 0\<rparr>"
  let ?s1 = "s\<lparr>mallocs := rest, heap := (heap s)(a \<mapsto> ?new)\<rparr>"
  let ?s2 = "?s1\<lparr>heap := (heap ?s1)(pl \<mapsto> node\<lparr>successor := a\<rparr>)\<rparr>"
  have sh: "int_shl (Suc 0) (l2s node) = Inr (2 ^ unat (l2s node))"
    using int_shl_one [OF k] by simp
  have "unat (l2s node) < 32" using k by simp
  from pool_create_exp [OF this m(1,2)]
  have cr: "pool_create s (2 ^ unat (l2s node)) = Inr (a, ?s1)"
    by simp
  have pa: "pl \<noteq> a" using m(3) by simp
  have step1: "pool_alloc s pl = pool_alloc ?s2 a"
    by (subst pool_alloc.simps) (simp add: pl full sh cr m pa)
  have z: "int_shl 0 (l2s node) = Inr 0"
    using k by (simp add: int_shl_def)
  have step2: "pool_alloc ?s2 a =
      Some (Inr (pool_source TYPE('w) a, ?s2\<lparr>heap := (heap ?s2)(a \<mapsto> ?new\<lparr>slots := sl\<rparr>)\<rparr>))"
    by (subst pool_alloc.simps) (simp add: m e z pa)
  have "?s2\<lparr>heap := (heap ?s2)(a \<mapsto> ?new\<lparr>slots := sl\<rparr>)\<rparr> =
      s\<lparr>mallocs := rest,
                heap := (heap s)(a \<mapsto> \<lparr>slots = sl, l2s = l2s node, successor = 0\<rparr>,
                                 pl \<mapsto> node\<lparr>successor := a\<rparr>)\<rparr>"
    using m(3) pa by (simp add: fun_upd_twist)
  with step1 step2 show ?thesis by auto
qed

lemma int_shl_one_overflow:
  assumes "\<not> unat k < 31"
  shows "int_shl 1 k = Inl UB_shift"
proof -
  have "31 \<le> unat k" using assms by simp
  then have "(2::nat) ^ 31 \<le> 2 ^ unat k" by (rule power_increasing) simp
  then show ?thesis by (simp add: int_shl_def)
qed

lemma pool_create_no_memory:
  assumes "j < 32" "mallocs s = [] \<or> (\<exists>rest. mallocs s = 0 # rest)"
  shows "pool_create (s :: 'w::len word state) (2 ^ j) = Inl Assert_buf"
proof -
  have "unat (2 ^ j :: uint) = 2 ^ j" using assms(1) by (rule unat_exp_uint)
  then have "(2 ^ j :: uint) \<noteq> 0" by (metis power_not_zero unat_0 zero_neq_numeral)
  then show ?thesis
    using assms(2)
    by (auto simp: pool_create_def pool_create_extra_def malloc_def Let_def)
qed

lemma pool_alloc_tail:
  fixes s :: "'w::len word state"
  assumes W: "LENGTH('w) = 32 \<or> LENGTH('w) = 64"
    and pl: "pl \<noteq> 0" "heap s pl = Some node"
    and full: "ssg_is_full (slots node)" "successor node = 0"
    and fresh: "\<And>a rest. mallocs s = a # rest \<Longrightarrow> a \<noteq> pl"
  shows "(\<exists>e. pool_alloc s pl = Some (Inl e)) \<or>
         (\<exists>a rest sl. mallocs s = a # rest \<and> a \<noteq> 0 \<and> pool_alloc s pl =
           Some (Inr (pool_source TYPE('w) a,
             s\<lparr>mallocs := rest,
                heap := (heap s)(a \<mapsto> \<lparr>slots = sl, l2s = l2s node, successor = 0\<rparr>,
                                 pl \<mapsto> node\<lparr>successor := a\<rparr>)\<rparr>)))"
proof (cases "unat (l2s node) < 31")
  case False
  then have "int_shl (Suc 0) (l2s node) = Inl UB_shift"
    using int_shl_one_overflow [of "l2s node"] by simp
  then have "pool_alloc s pl = Some (Inl UB_shift)"
    by (subst pool_alloc.simps) (simp add: pl full)
  then show ?thesis by blast
next
  case k: True
  then have sh: "int_shl (Suc 0) (l2s node) = Inr (2 ^ unat (l2s node))"
    using int_shl_one [of "l2s node"] by simp
  have k32: "unat (l2s node) < 32" using k by simp
  show ?thesis
  proof (cases "mallocs s = [] \<or> (\<exists>rest. mallocs s = 0 # rest)")
    case True
    from pool_create_no_memory [OF k32 this]
    have "pool_alloc s pl = Some (Inl Assert_buf)"
      by (subst pool_alloc.simps) (simp add: pl full sh)
    then show ?thesis by blast
  next
    case False
    then obtain a rest where m: "mallocs s = a # rest" "a \<noteq> 0"
      by (cases "mallocs s") auto
    from pool_alloc_new_successor [OF W pl full k m fresh [OF m(1)]] m
    show ?thesis by blast
  qed
qed


lemma pool_alloc_chain:
  fixes s :: "'w::len word state"
  assumes W: "LENGTH('w) = 32 \<or> LENGTH('w) = 64"
  shows "chain s pl ps \<Longrightarrow> chain_l2s s ps k \<Longrightarrow>
    (\<forall>a rest. mallocs s = a # rest \<longrightarrow> a \<notin> set ps) \<Longrightarrow>
    \<exists>r. pool_alloc s pl = Some r \<and>
      (\<forall>loc s'. r = Inr (loc, s') \<longrightarrow>
         (\<exists>ps'. chain s' pl ps' \<and> chain_l2s s' ps' k \<and>
            (\<forall>p. p \<notin> set ps' \<longrightarrow> heap s' p = heap s p) \<and>
            (ps' = ps \<and> mallocs s' = mallocs s \<or>
             (\<exists>a. mallocs s = a # mallocs s' \<and> ps' = ps @ [a]))))"
proof (induction ps arbitrary: pl)
  case Nil
  then have "pool_alloc s pl = Some (Inl Assert_pl)"
    by (subst pool_alloc.simps) simp
  then show ?case by simp
next
  case (Cons q qs)
  from Cons.prems(1) have c: "pl \<noteq> 0 \<and> pl = q \<and>
      (case heap s pl of None \<Rightarrow> False | Some node \<Rightarrow> chain s (successor node) qs)"
    unfolding chain.simps .
  then have "\<exists>node. heap s pl = Some node \<and> chain s (successor node) qs"
    by (cases "heap s pl") simp_all
  then obtain node where pl3: "heap s pl = Some node" and ch: "chain s (successor node) qs"
    by blast
  from c have pl: "pl \<noteq> 0" "q = pl" "heap s pl = Some node"
    using pl3 by simp_all
  from Cons.prems(2) pl have l2: "l2s node = k" and l2r: "chain_l2s s qs k"
    by (simp_all add: chain_l2s_def)
  have fresh: "\<And>a rest. mallocs s = a # rest \<Longrightarrow> a \<noteq> pl \<and> a \<notin> set qs"
    using Cons.prems(3) pl by auto
  have notin: "pl \<notin> set qs"
    using Cons.prems(1) pl(2) chain_head_notin by blast
  show ?case
  proof (cases "ssg_is_full (slots node)")
    case False
    let ?res = "case ssg_find (slots node) of
               Inl e \<Rightarrow> Inl e
             | Inr pos \<Rightarrow>
                 (case int_shl pos (l2s node) of
                    Inl e \<Rightarrow> Inl e
                  | Inr off \<Rightarrow>
                      (case ssg_mark (slots node) pos of
                         Inl e \<Rightarrow> Inl e
                       | Inr sl \<Rightarrow>
                           Inr (pool_source TYPE('w) pl + off,
                                      s\<lparr>heap := (heap s)(pl \<mapsto> node\<lparr>slots := sl\<rparr>)\<rparr>)))"
    have r: "pool_alloc s pl = Some ?res"
      by (subst pool_alloc.simps) (simp add: pl False split: sum.splits)
    have "\<exists>ps'. chain s' pl ps' \<and> chain_l2s s' ps' k \<and>
            (\<forall>p. p \<notin> set ps' \<longrightarrow> heap s' p = heap s p) \<and>
            (ps' = q # qs \<and> mallocs s' = mallocs s \<or>
             (\<exists>a. mallocs s = a # mallocs s' \<and> ps' = (q # qs) @ [a]))"
      if "?res = Inr (loc, s')" for loc s'
    proof -
      from that obtain sl where s': "s' = s\<lparr>heap := (heap s)(pl \<mapsto> node\<lparr>slots := sl\<rparr>)\<rparr>"
        by (auto split: sum.splits)
      have "chain s' pl (q # qs) = chain s pl (q # qs)"
        by (rule chain_cong) (simp add: s' pl)
      moreover have "chain_l2s s' (q # qs) k = chain_l2s s (q # qs) k"
        by (rule chain_l2s_cong) (simp add: s' pl)
      moreover have "\<forall>p. p \<notin> set (q # qs) \<longrightarrow> heap s' p = heap s p"
        by (simp add: s' pl)
      moreover have "mallocs s' = mallocs s" by (simp add: s')
      ultimately show ?thesis using Cons.prems(1,2) by blast
    qed
    with r show ?thesis by blast
  next
    case True
    show ?thesis
    proof (cases "successor node = 0")
      case z: True
      with ch have qs: "qs = []" by (cases qs) auto
      from pool_alloc_tail [OF W pl(1,3) True z] fresh
      consider e where "pool_alloc s pl = Some (Inl e)"
        | a rest sl where "mallocs s = a # rest" "a \<noteq> 0" "pool_alloc s pl =
           Some (Inr (pool_source TYPE('w) a,
             s\<lparr>mallocs := rest,
                heap := (heap s)(a \<mapsto> \<lparr>slots = sl, l2s = l2s node, successor = 0\<rparr>,
                                 pl \<mapsto> node\<lparr>successor := a\<rparr>)\<rparr>))"
        by blast
      then show ?thesis
      proof cases
        case 1
        then show ?thesis by simp
      next
        case 2
        let ?s' = "s\<lparr>mallocs := rest,
                heap := (heap s)(a \<mapsto> \<lparr>slots = sl, l2s = l2s node, successor = 0\<rparr>,
                                 pl \<mapsto> node\<lparr>successor := a\<rparr>)\<rparr>"
        have apl: "a \<noteq> pl" "pl \<noteq> a" using fresh [OF 2(1)] by auto
        have "chain ?s' pl [pl, a]"
          using pl(1) 2(2) apl by simp
        moreover have "chain_l2s ?s' [pl, a] k"
          using apl l2 by (simp add: chain_l2s_def)
        moreover have "\<forall>p. p \<notin> set [pl, a] \<longrightarrow> heap ?s' p = heap s p"
          by simp
        moreover have "mallocs s = a # mallocs ?s' \<and> [pl, a] = (q # qs) @ [a]"
          using 2(1) pl(2) qs by simp
        ultimately show ?thesis
          using 2(3) by (intro exI [of _ "Inr (pool_source TYPE('w) a, ?s')"]) blast
      qed
    next
      case nz: False
      have step: "pool_alloc s pl = pool_alloc s (successor node)"
        by (subst pool_alloc.simps) (simp add: pl True nz)
      have "\<forall>a rest. mallocs s = a # rest \<longrightarrow> a \<notin> set qs"
        using fresh by blast
      from Cons.IH [OF ch l2r this] obtain r where
        r: "pool_alloc s (successor node) = Some r"
        and rr: "\<And>loc s'. r = Inr (loc, s') \<Longrightarrow>
         (\<exists>ps'. chain s' (successor node) ps' \<and> chain_l2s s' ps' k \<and>
            (\<forall>p. p \<notin> set ps' \<longrightarrow> heap s' p = heap s p) \<and>
            (ps' = qs \<and> mallocs s' = mallocs s \<or>
             (\<exists>a. mallocs s = a # mallocs s' \<and> ps' = qs @ [a])))"
        by blast
      have "\<exists>ps'. chain s' pl ps' \<and> chain_l2s s' ps' k \<and>
            (\<forall>p. p \<notin> set ps' \<longrightarrow> heap s' p = heap s p) \<and>
            (ps' = q # qs \<and> mallocs s' = mallocs s \<or>
             (\<exists>a. mallocs s = a # mallocs s' \<and> ps' = (q # qs) @ [a]))"
        if "r = Inr (loc, s')" for loc s'
      proof -
        from rr [OF that] obtain ps' where
          p: "chain s' (successor node) ps'" "chain_l2s s' ps' k"
             "\<forall>p. p \<notin> set ps' \<longrightarrow> heap s' p = heap s p"
             "ps' = qs \<and> mallocs s' = mallocs s \<or>
             (\<exists>a. mallocs s = a # mallocs s' \<and> ps' = qs @ [a])"
          by blast
        have "pl \<notin> set ps'"
          using p(4) notin fresh by auto
        with p(3) have h: "heap s' pl = Some node" using pl(3) by simp
        have "chain s' pl (pl # ps')"
          using pl(1) h p(1) by simp
        moreover have "chain_l2s s' (pl # ps') k"
          using h l2 p(2) by (simp add: chain_l2s_def)
        moreover have "\<forall>p. p \<notin> set (pl # ps') \<longrightarrow> heap s' p = heap s p"
          using p(3) by simp
        moreover have "pl # ps' = q # qs \<and> mallocs s' = mallocs s \<or>
             (\<exists>a. mallocs s = a # mallocs s' \<and> pl # ps' = (q # qs) @ [a])"
          using p(4) pl(2) by auto
        ultimately show ?thesis by blast
      qed
      with step r show ?thesis by simp
    qed
  qed
qed


lemma pool_free_chain:
  fixes s :: "'w::len word state"
  shows "chain s pl ps \<Longrightarrow>
    \<exists>r. pool_free s pl ptr = Some r \<and>
      (\<forall>s'. r = Inr s' \<longrightarrow>
         mallocs s' = mallocs s \<and>
         (\<forall>p. map_option successor (heap s' p) = map_option successor (heap s p) \<and>
              map_option l2s (heap s' p) = map_option l2s (heap s p)))"
proof (induction ps arbitrary: pl)
  case Nil
  then have "pool_free s pl ptr = Some (Inl Assert_pl)"
    by (subst pool_free.simps) simp
  then show ?case by simp
next
  case (Cons q qs)
  from Cons.prems(1) have c: "pl \<noteq> 0 \<and> pl = q \<and>
      (case heap s pl of None \<Rightarrow> False | Some node \<Rightarrow> chain s (successor node) qs)"
    unfolding chain.simps .
  then have "\<exists>node. heap s pl = Some node \<and> chain s (successor node) qs"
    by (cases "heap s pl") simp_all
  then obtain node where pl3: "heap s pl = Some node" and ch: "chain s (successor node) qs"
    by blast
  from c have pl: "pl \<noteq> 0" using pl3 by simp
  show ?case
  proof (cases "ptr = 0")
    case True
    then have "pool_free s pl ptr = Some (Inr s)"
      by (subst pool_free.simps) (simp add: pl)
    then show ?thesis by simp
  next
    case ptr: False
    show ?thesis
    proof (cases "in_pool TYPE('w) pl (l2s node) ptr")
      case (Inl e)
      then have "pool_free s pl ptr = Some (Inl e)"
        by (subst pool_free.simps) (simp add: pl ptr pl3)
      then show ?thesis by simp
    next
      case (Inr inside)
      show ?thesis
      proof (cases inside)
        case True
        let ?res = "case uint_shr (ptr - pool_source TYPE('w) pl) (l2s node) of
                    Inl e \<Rightarrow> Inl e
                  | Inr slot \<Rightarrow>
                      (case ssg_test (slots node) slot of
                         Inl e \<Rightarrow> Inl e
                       | Inr marked \<Rightarrow>
                           if \<not> marked then Inl Assert_marked
                           else
                             (case ssg_unmark (slots node) slot of
                                Inl e \<Rightarrow> Inl e
                              | Inr sl \<Rightarrow>
                                  Inr (s\<lparr>heap := (heap s)(pl \<mapsto> node\<lparr>slots := sl\<rparr>)\<rparr>)))"
        have r: "pool_free s pl ptr = Some ?res"
          by (subst pool_free.simps) (simp add: pl ptr pl3 Inr True split: sum.splits)
        have "mallocs s' = mallocs s \<and>
         (\<forall>p. map_option successor (heap s' p) = map_option successor (heap s p) \<and>
              map_option l2s (heap s' p) = map_option l2s (heap s p))"
          if "?res = Inr s'" for s'
        proof -
          from that obtain sl where "s' = s\<lparr>heap := (heap s)(pl \<mapsto> node\<lparr>slots := sl\<rparr>)\<rparr>"
            by (auto split: sum.splits if_splits)
          then show ?thesis by (simp add: pl3)
        qed
        with r show ?thesis by blast
      next
        case False
        show ?thesis
        proof (cases "successor node = 0")
          case True
          then have "pool_free s pl ptr = Some (Inl Assert_not_allocated)"
            by (subst pool_free.simps) (simp add: pl ptr pl3 Inr False)
          then show ?thesis by simp
        next
          case nz: False
          have "pool_free s pl ptr = pool_free s (successor node) ptr"
            by (subst pool_free.simps) (simp add: pl ptr pl3 Inr False nz)
          with Cons.IH [OF ch] show ?thesis by simp
        qed
      qed
    qed
  qed
qed


lemma chain_member:
  assumes "chain s pl ps" "p \<in> set ps"
  shows "p \<noteq> 0"
proof -
  from chain_from_member [OF assms] obtain us vs where "chain s p (p # vs)" by blast
  then have "p \<noteq> 0 \<and> p = p \<and>
      (case heap s p of None \<Rightarrow> False | Some node \<Rightarrow> chain s (successor node) vs)"
    unfolding chain.simps .
  then show ?thesis by simp
qed

lemma chain_l2s_member:
  assumes "chain_l2s s ps k" "p \<in> set ps" "heap s p = Some node"
  shows "l2s node = k"
  using assms by (auto simp: chain_l2s_def list_all_iff)

lemma run_chain:
  fixes s :: "'w::len word state"
  assumes W: "LENGTH('w) = 32 \<or> LENGTH('w) = 64"
  shows "chain s pl ps \<Longrightarrow> chain_l2s s ps k \<Longrightarrow>
    distinct (mallocs s) \<Longrightarrow> set (mallocs s) \<inter> set ps = {} \<Longrightarrow>
    \<exists>r. run s pl cs = Some r \<and>
      (\<forall>s'. r = Inr s' \<longrightarrow>
         (\<exists>ps'. chain s' pl ps' \<and> chain_l2s s' ps' k \<and>
            distinct (mallocs s') \<and> set (mallocs s') \<inter> set ps' = {}))"
proof (induction cs arbitrary: s ps)
  case Nil
  then show ?case by auto
next
  case (Cons c cs)
  show ?case
  proof (cases c)
    case Alloc
    have "\<forall>a rest. mallocs s = a # rest \<longrightarrow> a \<notin> set ps"
      using Cons.prems(4) by auto
    from pool_alloc_chain [OF W Cons.prems(1,2) this] obtain r1 where
      r1: "pool_alloc s pl = Some r1"
      and rr: "\<And>loc s1. r1 = Inr (loc, s1) \<Longrightarrow>
         (\<exists>ps1. chain s1 pl ps1 \<and> chain_l2s s1 ps1 k \<and>
            (\<forall>p. p \<notin> set ps1 \<longrightarrow> heap s1 p = heap s p) \<and>
            (ps1 = ps \<and> mallocs s1 = mallocs s \<or>
             (\<exists>a. mallocs s = a # mallocs s1 \<and> ps1 = ps @ [a])))"
      by blast
    show ?thesis
    proof (cases r1)
      case (Inl e)
      then show ?thesis using r1 Alloc by simp
    next
      case (Inr res)
      obtain loc s1 where res: "res = (loc, s1)" by (cases res)
      from rr [of loc s1] Inr res obtain ps1 where
        p: "chain s1 pl ps1" "chain_l2s s1 ps1 k"
           "ps1 = ps \<and> mallocs s1 = mallocs s \<or>
             (\<exists>a. mallocs s = a # mallocs s1 \<and> ps1 = ps @ [a])"
        by blast
      have d: "distinct (mallocs s1) \<and> set (mallocs s1) \<inter> set ps1 = {}"
        using p(3) Cons.prems(3,4) by auto
      from Cons.IH [OF p(1,2)] d
      have "\<exists>r. run s1 pl cs = Some r \<and>
        (\<forall>s'. r = Inr s' \<longrightarrow>
         (\<exists>ps'. chain s' pl ps' \<and> chain_l2s s' ps' k \<and>
            distinct (mallocs s') \<and> set (mallocs s') \<inter> set ps' = {}))"
        by blast
      then show ?thesis using r1 Alloc Inr res by simp
    qed
  next
    case (Free ptr)
    from pool_free_chain [OF Cons.prems(1), of ptr] obtain r1 where
      r1: "pool_free s pl ptr = Some r1"
      and rr: "\<And>s1. r1 = Inr s1 \<Longrightarrow>
         mallocs s1 = mallocs s \<and>
         (\<forall>p. map_option successor (heap s1 p) = map_option successor (heap s p) \<and>
              map_option l2s (heap s1 p) = map_option l2s (heap s p))"
      by blast
    show ?thesis
    proof (cases r1)
      case (Inl e)
      then show ?thesis using r1 Free by simp
    next
      case (Inr s1)
      from rr [OF Inr] have m: "mallocs s1 = mallocs s"
        and h: "\<And>p. map_option successor (heap s1 p) = map_option successor (heap s p)"
               "\<And>p. map_option l2s (heap s1 p) = map_option l2s (heap s p)"
        by blast+
      have c1: "chain s1 pl ps" using chain_cong [of ps s1 s pl] h(1) Cons.prems(1) by blast
      have c2: "chain_l2s s1 ps k" using chain_l2s_cong [of ps s1 s k] h(2) Cons.prems(2) by blast
      from Cons.IH [OF c1 c2] Cons.prems(3,4) m
      have "\<exists>r. run s1 pl cs = Some r \<and>
        (\<forall>s'. r = Inr s' \<longrightarrow>
         (\<exists>ps'. chain s' pl ps' \<and> chain_l2s s' ps' k \<and>
            distinct (mallocs s') \<and> set (mallocs s') \<inter> set ps' = {}))"
        by simp
      then show ?thesis using r1 Free Inr by simp
    qed
  qed
qed

lemma pool_create_chain:
  assumes "pool_create (s0 :: 'w::len word state) n = Inr (pl, s)"
  shows "\<exists>k. chain s pl [pl] \<and> chain_l2s s [pl] k"
proof -
  from assms obtain ed where c: "pool_create_extra s0 n 0 False = Inr (pl, ed, s)"
    by (auto simp: pool_create_def split: sum.splits prod.splits)
  from pool_create_extra_node [OF c] obtain k where
    h: "heap s pl = Some \<lparr>slots = ssg_empty TYPE('w), l2s = k, successor = 0\<rparr>" by blast
  from c have "pl \<noteq> 0"
    by (auto simp: pool_create_extra_def malloc_def Let_def
        split: if_splits list.splits sum.splits prod.splits)
  with h have "chain s pl [pl] \<and> chain_l2s s [pl] k"
    by (simp add: chain_l2s_def)
  then show ?thesis by blast
qed

section \<open>The object size along a chain\<close>

text \<open>
  Claim C4: when \<open>pool_alloc\<close> reaches a node whose group is full and that has no
  successor, it creates a successor with the same rounded object size and recurses into
  it; so \<open>l2s\<close> is the same in every node of a chain at every observable point. For a
  chain \<open>ps\<close> from \<open>pl\<close> whose nodes all have \<open>l2s = k\<close>, with \<open>malloc\<close> returning
  blocks that are not nodes of the chain: first, \<open>pool_alloc\<close> on a full node \<open>p\<close> of the
  chain without successor, when \<open>1 << l2s\<close> is defined and \<open>malloc\<close> returns the block
  \<open>a\<close>, returns the first slot of the new node \<open>a\<close>, which has \<open>l2s = k\<close>, and links it
  as the successor of \<open>p\<close>; second, every sequence of \<open>pool_alloc\<close> and \<open>pool_free\<close>
  calls on \<open>pl\<close> returns, and unless it ends in a fatal or undefined call it leaves a
  chain from \<open>pl\<close> whose nodes all have \<open>l2s = k\<close>.
\<close>

theorem successor_keeps_object_size:
  fixes s :: "'w::len word state"
  assumes W: "LENGTH('w) = 32 \<or> LENGTH('w) = 64"
    and c: "chain s pl ps" "chain_l2s s ps k"
    and m: "distinct (mallocs s)" "set (mallocs s) \<inter> set ps = {}"
  shows "(\<forall>p node a rest.
            p \<in> set ps \<and> heap s p = Some node \<and> ssg_is_full (slots node) \<and>
            successor node = 0 \<and> unat k < 31 \<and> mallocs s = a # rest \<and> a \<noteq> 0 \<longrightarrow>
            (\<exists>sl. pool_alloc s p =
               Some (Inr (pool_source TYPE('w) a,
                 s\<lparr>mallocs := rest,
                    heap := (heap s)(a \<mapsto> \<lparr>slots = sl, l2s = k, successor = 0\<rparr>,
                                     p \<mapsto> node\<lparr>successor := a\<rparr>)\<rparr>)))) \<and>
         (\<forall>cs. \<exists>r. run s pl cs = Some r \<and>
            (\<forall>s'. r = Inr s' \<longrightarrow> (\<exists>ps'. chain s' pl ps' \<and> chain_l2s s' ps' k)))"
proof (intro conjI allI impI)
  fix p node a rest
  assume a: "p \<in> set ps \<and> heap s p = Some node \<and> ssg_is_full (slots node) \<and>
            successor node = 0 \<and> unat k < 31 \<and> mallocs s = a # rest \<and> a \<noteq> 0"
  then have p0: "p \<noteq> 0" using chain_member [OF c(1)] by blast
  from a have k: "l2s node = k" using chain_l2s_member [OF c(2)] by blast
  from a m(2) have ap: "a \<noteq> p" by auto
  from a k have kk: "unat (l2s node) < 31" by simp
  from a have h: "heap s p = Some node" "ssg_is_full (slots node)" "successor node = 0"
    and mm: "mallocs s = a # rest" "a \<noteq> 0" by simp_all
  from pool_alloc_new_successor [OF W p0 h kk mm ap]
  show "\<exists>sl. pool_alloc s p =
               Some (Inr (pool_source TYPE('w) a,
                 s\<lparr>mallocs := rest,
                    heap := (heap s)(a \<mapsto> \<lparr>slots = sl, l2s = k, successor = 0\<rparr>,
                                     p \<mapsto> node\<lparr>successor := a\<rparr>)\<rparr>))"
    by (simp only: k)
next
  fix cs
  from run_chain [OF W c m, of cs]
  show "\<exists>r. run s pl cs = Some r \<and>
            (\<forall>s'. r = Inr s' \<longrightarrow> (\<exists>ps'. chain s' pl ps' \<and> chain_l2s s' ps' k))"
    by blast
qed

lemma alloc_ilp32_full:
  "pool_alloc ilp32_full 4096 =
     Some (Inr (8208,
       \<lparr>heap = [8192 \<mapsto> \<lparr>slots = [0xFFFFFFFE, 0xFFFFFFFF], l2s = 3, successor = 0\<rparr>,
                4096 \<mapsto> \<lparr>slots = [0, 0], l2s = 3, successor = 8192\<rparr>],
          mallocs = []\<rparr>))"
  unfolding ilp32_full_def
  by (simp add: pool_alloc.simps eval_defs platform_defs pool_create_def pool_create_extra_def
      malloc_def npot_def ssg_empty_ilp32_hex fun_upd_twist)

theorem successor_keeps_object_size_witness:
  "(LENGTH(32) = 32 \<or> LENGTH(32) = 64) \<and>
   chain ilp32_full 4096 [4096] \<and> chain_l2s ilp32_full [4096] 3 \<and>
   distinct (mallocs ilp32_full) \<and> set (mallocs ilp32_full) \<inter> set [4096] = {} \<and>
   heap ilp32_full 4096 = Some \<lparr>slots = [0, 0], l2s = 3, successor = 0\<rparr> \<and>
   ssg_is_full [0, 0 :: 32 word] \<and> unat (3 :: uint) < 31 \<and> mallocs ilp32_full = [8192] \<and>
   (\<exists>sl. pool_alloc ilp32_full 4096 =
      Some (Inr (pool_source TYPE(32) 8192,
        ilp32_full\<lparr>mallocs := [],
          heap := (heap ilp32_full)(8192 \<mapsto> \<lparr>slots = sl, l2s = 3, successor = 0\<rparr>,
                    4096 \<mapsto> \<lparr>slots = [0, 0], l2s = 3, successor = 8192\<rparr>)\<rparr>))) \<and>
   (\<exists>r. run ilp32_full 4096 [Alloc, Alloc, Free 8208] = Some r \<and>
      (\<forall>s'. r = Inr s' \<longrightarrow> (\<exists>ps'. chain s' 4096 ps' \<and> chain_l2s s' ps' 3))) \<and>
   run ilp32_full 4096 [Alloc] =
     Some (Inr \<lparr>heap = [8192 \<mapsto> \<lparr>slots = [0xFFFFFFFE, 0xFFFFFFFF], l2s = 3, successor = 0\<rparr>,
                4096 \<mapsto> \<lparr>slots = [0, 0], l2s = 3, successor = 8192\<rparr>],
          mallocs = []\<rparr>)"
proof -
  have h: "LENGTH(32) = 32 \<or> LENGTH(32) = 64"
    "chain ilp32_full 4096 [4096]" "chain_l2s ilp32_full [4096] 3"
    "distinct (mallocs ilp32_full)" "set (mallocs ilp32_full) \<inter> set [4096] = {}"
    by (simp_all add: ilp32_full_def chain_l2s_def)
  have n: "(4096 :: addr) \<in> set [4096]"
    "heap ilp32_full 4096 = Some \<lparr>slots = [0, 0], l2s = 3, successor = 0\<rparr>"
    "ssg_is_full (slots \<lparr>slots = [0, 0 :: 32 word], l2s = 3, successor = 0\<rparr>)"
    "successor \<lparr>slots = [0, 0 :: 32 word], l2s = 3, successor = 0\<rparr> = 0"
    "unat (3 :: uint) < 31" "mallocs ilp32_full = 8192 # []" "(8192 :: addr) \<noteq> 0"
    by (simp_all add: ilp32_full_def SS_FULL_def)
  note t = successor_keeps_object_size [OF h]
  from t n have a: "\<exists>sl. pool_alloc ilp32_full 4096 =
      Some (Inr (pool_source TYPE(32) 8192,
        ilp32_full\<lparr>mallocs := [],
          heap := (heap ilp32_full)(8192 \<mapsto> \<lparr>slots = sl, l2s = 3, successor = 0\<rparr>,
                    4096 \<mapsto> \<lparr>slots = [0, 0], l2s = 3, successor = 0\<rparr>
                      \<lparr>successor := 8192\<rparr>)\<rparr>))"
    by blast
  from t have b: "\<exists>r. run ilp32_full 4096 [Alloc, Alloc, Free 8208] = Some r \<and>
      (\<forall>s'. r = Inr s' \<longrightarrow> (\<exists>ps'. chain s' 4096 ps' \<and> chain_l2s s' ps' 3))"
    by blast
  have c: "run ilp32_full 4096 [Alloc] =
     Some (Inr \<lparr>heap = [8192 \<mapsto> \<lparr>slots = [0xFFFFFFFE, 0xFFFFFFFF], l2s = 3, successor = 0\<rparr>,
                4096 \<mapsto> \<lparr>slots = [0, 0], l2s = 3, successor = 8192\<rparr>],
          mallocs = []\<rparr>)"
    by (simp add: alloc_ilp32_full)
  from a have a': "\<exists>sl. pool_alloc ilp32_full 4096 =
      Some (Inr (pool_source TYPE(32) 8192,
        ilp32_full\<lparr>mallocs := [],
          heap := (heap ilp32_full)(8192 \<mapsto> \<lparr>slots = sl, l2s = 3, successor = 0\<rparr>,
                    4096 \<mapsto> \<lparr>slots = [0, 0], l2s = 3, successor = 8192\<rparr>)\<rparr>))"
    by simp
  show ?thesis
    using h n(2,5,6) a' b c by (simp add: SS_FULL_def)
qed

section \<open>The scan for a free slot\<close>

text \<open>
  With a 32-bit \<open>unsigned long\<close> nothing is lost in the conversion to
  \<open>unsigned int\<close>, and \<open>ssg_find\<close> returns the lowest free slot of every group that
  is not full.
\<close>

lemma ctz_from_lowest:
  "v \<noteq> 0 \<Longrightarrow> v < 2 ^ n \<Longrightarrow>
     ctz_from n v < n \<and> bit v (ctz_from n v) \<and> (\<forall>j<ctz_from n v. \<not> bit v j)"
proof (induction n arbitrary: v)
  case 0
  then show ?case by simp
next
  case (Suc n)
  show ?case
  proof (cases "odd v")
    case True
    then show ?thesis by (simp add: bit_0)
  next
    case False
    then have e: "even v" by simp
    with Suc.prems have "v div 2 \<noteq> 0" "v div 2 < 2 ^ n" by auto
    from Suc.IH [OF this] have IH: "ctz_from n (v div 2) < n"
      "bit (v div 2) (ctz_from n (v div 2))"
      "\<And>j. j < ctz_from n (v div 2) \<Longrightarrow> \<not> bit (v div 2) j" by blast+
    have "\<not> bit v j" if "j < Suc (ctz_from n (v div 2))" for j
    proof (cases j)
      case 0
      then show ?thesis using e by (simp add: bit_0)
    next
      case (Suc j')
      with that IH(3) [of j'] show ?thesis by (simp add: bit_Suc)
    qed
    then show ?thesis using e IH(1,2) by (simp add: bit_Suc)
  qed
qed

lemma ss_find_ilp32_lowest:
  fixes x :: "32 word"
  assumes "x \<noteq> 0"
  shows "\<exists>c<32. ss_find x = Inr c \<and> bit x c \<and> (\<forall>j<c. \<not> bit x j)"
proof -
  have "unat x \<noteq> 0" using assms by (simp add: unat_eq_0)
  moreover have "unat x < 2 ^ 32" using unsigned_less [of x] by simp
  ultimately have c: "ctz_from 32 (unat x) < 32" "bit (unat x) (ctz_from 32 (unat x))"
    "\<And>j. j < ctz_from 32 (unat x) \<Longrightarrow> \<not> bit (unat x) j"
    using ctz_from_lowest [of "unat x" 32] by blast+
  have b: "bit x j" if "bit (unat x) j" for j
    using that by (simp add: bit_unsigned_iff)
  have nb: "\<not> bit x j" if "\<not> bit (unat x) j" "j < 32" for j
    using that by (simp add: bit_unsigned_iff)
  have "ss_find x = Inr (ctz_from 32 (unat x))"
    using assms by (simp add: ss_find_def builtin_ctz_def)
  moreover have "\<forall>j<ctz_from 32 (unat x). \<not> bit x j"
    using c(1,3) nb by (meson less_trans)
  ultimately show ?thesis using c(1) b [OF c(2)] by blast
qed

lemma ssg_find_ilp32_lowest:
  fixes x :: "32 word list"
  assumes "ssg_wf x" "\<not> ssg_is_full x"
  shows "\<exists>i<64. ssg_find x = Inr i \<and> slot_free x i \<and> (\<forall>j<i. \<not> slot_free x j)"
proof -
  from assms(1) obtain a b where x: "x = [a, b]"
    by (cases x; cases "tl x") (auto simp: ssg_wf_def SSG_COUNT_ilp32)
  have S: "SS_SIZE TYPE(32) = 32" by (simp add: platform_defs)
  show ?thesis
  proof (cases "a = 0")
    case False
    from ss_find_ilp32_lowest [OF False] obtain c where
      c: "c < 32" "ss_find a = Inr c" "bit a c" "\<forall>j<c. \<not> bit a j" by blast
    have "ssg_find x = Inr c" using False c(2) by (simp add: x ssg_find_def SS_FULL_def)
    moreover have "slot_free x c" using c(1,3) by (simp add: x slot_free_def S)
    moreover have "\<not> slot_free x j" if "j < c" for j
      using that c(1,4) by (simp add: x slot_free_def S)
    ultimately show ?thesis using c(1) by (intro exI [of _ c]) simp
  next
    case True
    with assms(2) have b0: "b \<noteq> 0" by (auto simp: x SS_FULL_def split: if_splits)
    from ss_find_ilp32_lowest [OF b0] obtain c where
      c: "c < 32" "ss_find b = Inr c" "bit b c" "\<forall>j<c. \<not> bit b j" by blast
    have "ssg_find x = Inr (32 + c)"
      using True b0 c(2) by (simp add: x ssg_find_def SS_FULL_def S)
    moreover have "slot_free x (32 + c)" using c(1,3) by (simp add: x slot_free_def S)
    moreover have "\<not> slot_free x j" if "j < 32 + c" for j
    proof (cases "j < 32")
      case True
      then show ?thesis using \<open>a = 0\<close> by (simp add: x slot_free_def S)
    next
      case False
      define j' where "j' = j - 32"
      have j: "j = 32 + j'" "j' < c" using False that by (simp_all add: j'_def)
      then have "j' < 32" using c(1) by simp
      then have "j div 32 = 1" "j mod 32 = j'" using j(1) by simp_all
      then show ?thesis using c(4) j(2) by (simp add: x slot_free_def S)
    qed
    ultimately show ?thesis using c(1) by (intro exI [of _ "32 + c"]) simp
  qed
qed

text \<open>
  A full node that has a successor passes the allocation on to it, in the same state.
\<close>

lemma pool_alloc_full_node:
  fixes s :: "'w::len word state"
  assumes "pl \<noteq> 0" "heap s pl = Some node" "ssg_is_full (slots node)" "successor node \<noteq> 0"
  shows "pool_alloc s pl = pool_alloc s (successor node)"
  by (subst pool_alloc.simps) (simp add: assms)

text \<open>
  A node that is not full serves the allocation itself: the address is in its own
  buffer, at the index \<open>ssg_find\<close> returned, and no other node changes.
\<close>

lemma pool_alloc_head_first:
  fixes s :: "'w::len word state"
  assumes "pl \<noteq> 0" "heap s pl = Some node" "\<not> ssg_is_full (slots node)"
    and "pool_alloc s pl = Some (Inr (loc, s'))"
  shows "\<exists>pos sl. ssg_find (slots node) = Inr pos \<and> ssg_mark (slots node) pos = Inr sl \<and>
           loc = pool_source TYPE('w) pl + pos * 2 ^ unat (l2s node) \<and>
           s' = s\<lparr>heap := (heap s)(pl \<mapsto> node\<lparr>slots := sl\<rparr>)\<rparr>"
proof -
  have "pool_alloc s pl = (case ssg_find (slots node) of
               Inl e \<Rightarrow> Some (Inl e)
             | Inr pos \<Rightarrow>
                 (case int_shl pos (l2s node) of
                    Inl e \<Rightarrow> Some (Inl e)
                  | Inr off \<Rightarrow>
                      (case ssg_mark (slots node) pos of
                         Inl e \<Rightarrow> Some (Inl e)
                       | Inr sl \<Rightarrow>
                           Some (Inr (pool_source TYPE('w) pl + off,
                                      s\<lparr>heap := (heap s)(pl \<mapsto> node\<lparr>slots := sl\<rparr>)\<rparr>)))))"
    by (subst pool_alloc.simps) (simp add: assms(1-3))
  with assms(4) show ?thesis
    by (auto split: sum.splits dest: int_shl_Inr)
qed

end
